theory Spec2Isabelle
  imports Main "HOL-Library.AList"
begin

section \<open>Schema documents\<close>

text \<open>
  A schema is a JSON document as \<^verbatim>\<open>JSON.parse\<close> returns it. An object keeps its
  keys in insertion order, so it is an association list; \<^verbatim>\<open>schema.k\<close> reads
  \<open>map_of schema k\<close> (\<open>None\<close> is JavaScript's \<^verbatim>\<open>undefined\<close>),
  \<^verbatim>\<open>schema.k = v\<close> is \<open>AList.update k v schema\<close> (the key keeps its place, a
  new key goes last) and \<^verbatim>\<open>delete schema.k\<close> is \<open>AList.delete k schema\<close>.
  A value that is an object is \<open>JObj r\<close>, where \<open>r\<close> stands for the object: in a
  schema tree \<open>r\<close> is the object's own key list (\<open>Node\<close>), in the store of
  the section on objects it is the object's address. The rules read and write the keys of one
  node and never look inside a nested object, so they are written once, for any \<open>r\<close>.
  Numbers are integers: the keywords the rules read as numbers, \<^verbatim>\<open>minItems\<close> and
  \<^verbatim>\<open>maxItems\<close>, are integers in a schema, and every other number is only moved
  around or tested against zero.
\<close>

datatype 'r json =
    JNull
  | JBool bool
  | JNum int
  | JStr string
  | JArr "'r json list"
  | JObj 'r

type_synonym 'r fields = "(string \<times> 'r json) list"

datatype tree = Node "tree fields"

type_synonym schema = "tree fields"

text \<open>JavaScript's truthiness of a property read.\<close>

fun truthy :: "'r json option \<Rightarrow> bool" where
  "truthy None = False"
| "truthy (Some JNull) = False"
| "truthy (Some (JBool b)) = b"
| "truthy (Some (JNum n)) = (n \<noteq> 0)"
| "truthy (Some (JStr s)) = (s \<noteq> [])"
| "truthy (Some (JArr xs)) = True"
| "truthy (Some (JObj kvs)) = True"

text \<open>\<^verbatim>\<open>Array.isArray\<close>.\<close>

fun isArray :: "'r json option \<Rightarrow> bool" where
  "isArray (Some (JArr xs)) = True"
| "isArray _ = False"

text \<open>\<^verbatim>\<open>a || b\<close>: the first operand when it is truthy, else the second.\<close>

definition js_or :: "'r json option \<Rightarrow> 'r json option \<Rightarrow> 'r json option" where
  "js_or a b = (if truthy a then a else b)"

datatype error = RangeError | Thrown string

text \<open>
  \<^verbatim>\<open>Array(n).fill(x)\<close>. With a number \<open>n\<close> the constructor makes an array of that
  length and raises \<^verbatim>\<open>RangeError: Invalid array length\<close> unless \<open>n\<close> is an array
  length, \<open>0 \<le> n < 2^32\<close>; with any other argument it makes the one-element array
  holding the argument, which \<^verbatim>\<open>fill\<close> then overwrites.
\<close>

fun Array_fill :: "'r json option \<Rightarrow> 'r json \<Rightarrow> error + 'r json list" where
  "Array_fill (Some (JNum n)) x =
     (if 0 \<le> n \<and> n < 2 ^ 32 then Inr (replicate (nat n) x) else Inl RangeError)"
| "Array_fill _ x = Inr [x]"

section \<open>Options and the helpers of utils\<close>

text \<open>
  Of the options, the built-in rules read \<^verbatim>\<open>ignoreMinAndMaxItems\<close> only, and
  \<^verbatim>\<open>normalize\<close> reads \<^verbatim>\<open>normalizerRules\<close>, an optional insertion-ordered
  \<^verbatim>\<open>Map\<close> from names to rules. A rule is handed the options without the rule
  map.

  The twelve built-in rules mutate the node they are given, and nothing else, and return
  nothing; none reads its second parameter \<^verbatim>\<open>rootSchema\<close>. Such a rule is a
  \<open>Rule\<close>: a function that returns the mutated node, or the error it raised. A rule
  of the caller's is any function of the source's type \<^verbatim>\<open>Rule\<close>: it may
  mutate every object it can reach, through \<^verbatim>\<open>rootSchema\<close> or through what it
  holds itself. On trees only the caller's rules that work on the node they are handed
  can be written down, as a \<open>Rule\<close>; the general rule of a caller is a
  \<open>store_Rule\<close> of the section on objects. The options are therefore written for
  any kind of rule.
\<close>

record Options =
  ignoreMinAndMaxItems :: bool

type_synonym 'r Rule = "'r fields \<Rightarrow> string \<Rightarrow> Options \<Rightarrow> bool \<Rightarrow> error + 'r fields"

record 'rule NormalizerOptions = Options +
  normalizerRules :: "(string \<times> 'rule) list option"

text \<open>
  \<^verbatim>\<open>justName\<close> and \<^verbatim>\<open>toSafeString\<close> are imported from utils, which is not
  among the sources: they are parameters of the embedding.
\<close>

record utils =
  justName :: "string \<Rightarrow> string"
  toSafeString :: "string \<Rightarrow> string"

text \<open>
  Modelled from the spec: \<^verbatim>\<open>escapeBlockComment\<close> of utils is missing. The spec:
  "Escape any token sequence inside descriptive text fields that would prematurely
  terminate a block-style comment in the generated output." The descriptive text field
  is \<^verbatim>\<open>description\<close>, the terminating token is \<^verbatim>\<open>*/\<close>, and escaping puts
  a space between its two characters.
\<close>

fun escape_close :: "string \<Rightarrow> string" where
  "escape_close [] = []"
| "escape_close [c] = [c]"
| "escape_close (c # d # cs) =
     (if c = CHR ''*'' \<and> d = CHR ''/''
      then CHR ''*'' # CHR '' '' # CHR ''/'' # escape_close cs
      else c # escape_close (d # cs))"

definition escapeBlockComment :: "'r fields \<Rightarrow> 'r fields" where
  "escapeBlockComment s =
     (case map_of s ''description'' of
        Some (JStr d) \<Rightarrow> AList.update ''description'' (JStr (escape_close d)) s
      | _ \<Rightarrow> s)"

section \<open>The built-in rules\<close>

definition hasType :: "'r fields \<Rightarrow> string \<Rightarrow> bool" where
  "hasType s t =
     (map_of s ''type'' = Some (JStr t) \<or>
      (case map_of s ''type'' of Some (JArr ts) \<Rightarrow> JStr t \<in> set ts | _ \<Rightarrow> False))"

definition isObjectType :: "'r fields \<Rightarrow> bool" where
  "isObjectType s =
     (map_of s ''properties'' \<noteq> None \<or> hasType s ''object'' \<or> hasType s ''any'')"

definition isArrayType :: "'r fields \<Rightarrow> bool" where
  "isArrayType s =
     (map_of s ''items'' \<noteq> None \<or> hasType s ''array'' \<or> hasType s ''any'')"

text \<open>Remove \<^verbatim>\<open>type=["null"]\<close> if \<^verbatim>\<open>enum=[null]\<close>.\<close>

definition rule_remove_null_type :: "'r Rule" where
  "rule_remove_null_type s fileName options isRoot =
     (case (map_of s ''enum'', map_of s ''type'') of
        (Some (JArr es), Some (JArr ts)) \<Rightarrow>
          if JNull \<in> set es \<and> JStr ''null'' \<in> set ts
          then Inr (AList.update ''type'' (JArr (filter (\<lambda>t. t \<noteq> JStr ''null'') ts)) s)
          else Inr s
      | _ \<Rightarrow> Inr s)"

text \<open>Destructure unary types.\<close>

definition rule_destructure_unary_types :: "'r Rule" where
  "rule_destructure_unary_types s fileName options isRoot =
     (case map_of s ''type'' of
        Some (JArr [t]) \<Rightarrow> Inr (AList.update ''type'' t s)
      | _ \<Rightarrow> Inr s)"

text \<open>Add empty \<^verbatim>\<open>required\<close> property if none is defined.\<close>

definition rule_add_empty_required :: "'r Rule" where
  "rule_add_empty_required s fileName options isRoot =
     (if isObjectType s \<and> map_of s ''required'' = None
      then Inr (AList.update ''required'' (JArr []) s)
      else Inr s)"

text \<open>Transform \<^verbatim>\<open>required\<close>=false to \<^verbatim>\<open>required\<close>=[].\<close>

definition rule_required_false :: "'r Rule" where
  "rule_required_false s fileName options isRoot =
     (if map_of s ''required'' = Some (JBool False)
      then Inr (AList.update ''required'' (JArr []) s)
      else Inr s)"

text \<open>Default additionalProperties to true.\<close>

definition rule_default_additionalProperties :: "'r Rule" where
  "rule_default_additionalProperties s fileName options isRoot =
     (if isObjectType s \<and> map_of s ''additionalProperties'' = None
         \<and> map_of s ''patternProperties'' = None
      then Inr (AList.update ''additionalProperties'' (JBool True) s)
      else Inr s)"

text \<open>Default top level \<^verbatim>\<open>id\<close>.\<close>

definition rule_default_id :: "utils \<Rightarrow> 'r Rule" where
  "rule_default_id u s fileName options isRoot =
     (if isRoot \<and> \<not> truthy (map_of s ''id'')
      then Inr (AList.update ''id'' (JStr (toSafeString u (justName u fileName))) s)
      else Inr s)"

text \<open>Escape closing JSDoc Comment.\<close>

definition rule_escape_jsdoc :: "'r Rule" where
  "rule_escape_jsdoc s fileName options isRoot = Inr (escapeBlockComment s)"

text \<open>Optionally remove maxItems and minItems.\<close>

definition rule_remove_max_min_items :: "'r Rule" where
  "rule_remove_max_min_items s fileName options isRoot =
     (if ignoreMinAndMaxItems options
      then Inr (AList.delete ''minItems'' (AList.delete ''maxItems'' s))
      else Inr s)"

text \<open>Normalise schema.minItems.\<close>

definition rule_normalise_minItems :: "'r Rule" where
  "rule_normalise_minItems s fileName options isRoot =
     (if ignoreMinAndMaxItems options then Inr s
      else if isArrayType s
      then Inr (AList.update ''minItems''
                 (case map_of s ''minItems'' of Some (JNum n) \<Rightarrow> JNum n | _ \<Rightarrow> JNum 0) s)
      else Inr s)"

text \<open>
  Normalize schema.items. \<open>hasMaxItems\<close> and \<open>hasMinItems\<close> are the two constants the
  rule computes on entry; neither assignment of the rule changes them.
\<close>

definition hasMaxItems :: "'r fields \<Rightarrow> bool" where
  "hasMaxItems s = (case map_of s ''maxItems'' of Some (JNum n) \<Rightarrow> 0 \<le> n | _ \<Rightarrow> False)"

definition hasMinItems :: "'r fields \<Rightarrow> bool" where
  "hasMinItems s = (case map_of s ''minItems'' of Some (JNum n) \<Rightarrow> 0 < n | _ \<Rightarrow> False)"

text \<open>The first conditional: create a tuple of length N.\<close>

definition items_to_tuple :: "'r fields \<Rightarrow> error + 'r fields" where
  "items_to_tuple s =
     (case map_of s ''items'' of
        None \<Rightarrow> Inr s
      | Some items \<Rightarrow>
          if truthy (Some items) \<and> \<not> isArray (Some items) \<and> (hasMaxItems s \<or> hasMinItems s)
          then
            (case Array_fill
                    (js_or (map_of s ''maxItems'') (js_or (map_of s ''minItems'') (Some (JNum 0))))
                    items of
               Inl e \<Rightarrow> Inl e
             | Inr newItems \<Rightarrow>
                 Inr (AList.update ''items'' (JArr newItems)
                       (if \<not> hasMaxItems s then AList.update ''additionalItems'' items s else s)))
          else Inr s)"

text \<open>The second conditional: drop the item definitions beyond maxItems.\<close>

definition items_slice :: "'r fields \<Rightarrow> 'r fields" where
  "items_slice s =
     (case (map_of s ''items'', map_of s ''maxItems'') of
        (Some (JArr xs), Some (JNum n)) \<Rightarrow>
          if 0 \<le> n \<and> n < int (length xs)
          then AList.update ''items'' (JArr (take (nat n) xs)) s
          else s
      | _ \<Rightarrow> s)"

definition rule_normalize_items :: "'r Rule" where
  "rule_normalize_items s fileName options isRoot =
     (if ignoreMinAndMaxItems options then Inr s
      else case items_to_tuple s of
             Inl e \<Rightarrow> Inl e
           | Inr s' \<Rightarrow> Inr (items_slice s'))"

text \<open>Transform $defs to definitions.\<close>

definition rule_defs_to_definitions :: "'r Rule" where
  "rule_defs_to_definitions s fileName options isRoot =
     (case map_of s ''$defs'' of
        None \<Rightarrow> Inr s
      | Some defs \<Rightarrow>
          if truthy (Some defs)
          then Inr (AList.delete ''$defs'' (AList.update ''definitions'' defs s))
          else Inr s)"

text \<open>Transform const to singleton enum.\<close>

definition rule_const_to_enum :: "'r Rule" where
  "rule_const_to_enum s fileName options isRoot =
     (case map_of s ''const'' of
        None \<Rightarrow> Inr s
      | Some c \<Rightarrow>
          if truthy (Some c)
          then Inr (AList.delete ''const'' (AList.update ''enum'' (JArr [c]) s))
          else Inr s)"

text \<open>The rule map, in the order of its \<^verbatim>\<open>rules.set\<close> calls.\<close>

definition rules :: "utils \<Rightarrow> (string \<times> 'r Rule) list" where
  "rules u =
     [(''Remove `type=[\"null\"]` if `enum=[null]`'', rule_remove_null_type),
      (''Destructure unary types'', rule_destructure_unary_types),
      (''Add empty `required` property if none is defined'', rule_add_empty_required),
      (''Transform `required`=false to `required`=[]'', rule_required_false),
      (''Default additionalProperties to true'', rule_default_additionalProperties),
      (''Default top level `id`'', rule_default_id u),
      (''Escape closing JSDoc Comment'', rule_escape_jsdoc),
      (''Optionally remove maxItems and minItems'', rule_remove_max_min_items),
      (''Normalise schema.minItems'', rule_normalise_minItems),
      (''Normalize schema.items'', rule_normalize_items),
      (''Transform $defs to definitions'', rule_defs_to_definitions),
      (''Transform const to singleton enum'', rule_const_to_enum)]"

section \<open>Traversal and normalize on schema trees\<close>

text \<open>
  A computation that may raise and may fail to return: \<open>None\<close> when the recursion
  depth allowed was used up, \<open>Some (Inl e)\<close> when \<open>e\<close> was raised, \<open>Some (Inr x)\<close> when
  \<open>x\<close> was returned.
\<close>

type_synonym 'a result = "(error + 'a) option"

definition Return :: "'a \<Rightarrow> 'a result" where
  "Return x = Some (Inr x)"

definition and_then :: "'a result \<Rightarrow> ('a \<Rightarrow> 'b result) \<Rightarrow> 'b result" where
  "and_then m f = (case m of None \<Rightarrow> None | Some (Inl e) \<Rightarrow> Some (Inl e) | Some (Inr x) \<Rightarrow> f x)"

fun mapM :: "('a \<Rightarrow> 'b result) \<Rightarrow> 'a list \<Rightarrow> 'b list result" where
  "mapM g [] = Return []"
| "mapM g (x # xs) = and_then (g x) (\<lambda>y. and_then (mapM g xs) (\<lambda>ys. Return (y # ys)))"

text \<open>
  Modelled from the spec: \<^verbatim>\<open>traverse\<close> of utils is missing. The spec: "perform one
  full pre-order traversal of the copy, invoking the rule on every node reachable through
  properties values, items (array or single), additionalItems, additionalProperties (when
  itself a node), definitions/$defs values, and schema-combinator children
  (allOf/anyOf/oneOf/not), marking only the single entry node of the traversal as is
  root." A node is an object; a child that is no object is left as it is. The callback
  runs on a node before its children are looked up, so the children visited are those
  of the mutated node. The first argument bounds the depth of the recursion.
\<close>

definition traverseValue :: "(schema \<Rightarrow> schema result) \<Rightarrow> tree json \<Rightarrow> tree json result" where
  "traverseValue g v =
     (case v of
        JObj (Node s) \<Rightarrow> and_then (g s) (\<lambda>s'. Return (JObj (Node s')))
      | _ \<Rightarrow> Return v)"

definition traverseArray :: "(schema \<Rightarrow> schema result) \<Rightarrow> tree json \<Rightarrow> tree json result" where
  "traverseArray g v =
     (case v of
        JArr xs \<Rightarrow> and_then (mapM (traverseValue g) xs) (\<lambda>ys. Return (JArr ys))
      | _ \<Rightarrow> Return v)"

definition traverseObjectKeys :: "(schema \<Rightarrow> schema result) \<Rightarrow> tree json \<Rightarrow> tree json result" where
  "traverseObjectKeys g v =
     (case v of
        JObj (Node kvs) \<Rightarrow>
          and_then (mapM (\<lambda>kv. and_then (traverseValue g (snd kv)) (\<lambda>c. Return (fst kv, c))) kvs)
            (\<lambda>kvs'. Return (JObj (Node kvs')))
      | _ \<Rightarrow> Return v)"

text \<open>How the value under a key is traversed.\<close>

datatype key_kind =
    KeyedNodes      \<comment> \<open>an object whose values are nodes: properties, definitions, $defs\<close>
  | NodeOrArray     \<comment> \<open>a node or an array of nodes: items\<close>
  | NodeArray       \<comment> \<open>an array of nodes: allOf, anyOf, oneOf\<close>
  | SingleNode      \<comment> \<open>a node: additionalItems, additionalProperties, not\<close>
  | NotTraversed

definition key_kind :: "string \<Rightarrow> key_kind" where
  "key_kind k =
     (if k \<in> {''properties'', ''definitions'', ''$defs''} then KeyedNodes
      else if k = ''items'' then NodeOrArray
      else if k \<in> {''allOf'', ''anyOf'', ''oneOf''} then NodeArray
      else if k \<in> {''additionalItems'', ''additionalProperties'', ''not''} then SingleNode
      else NotTraversed)"

definition traverseKey :: "(schema \<Rightarrow> schema result) \<Rightarrow> string \<times> tree json \<Rightarrow> (string \<times> tree json) result" where
  "traverseKey g kv =
     and_then
       (case key_kind (fst kv) of
          KeyedNodes \<Rightarrow> traverseObjectKeys g (snd kv)
        | NodeOrArray \<Rightarrow>
            (if isArray (Some (snd kv)) then traverseArray g (snd kv)
             else traverseValue g (snd kv))
        | NodeArray \<Rightarrow> traverseArray g (snd kv)
        | SingleNode \<Rightarrow> traverseValue g (snd kv)
        | NotTraversed \<Rightarrow> Return (snd kv))
       (\<lambda>v. Return (fst kv, v))"

primrec traverse :: "nat \<Rightarrow> schema \<Rightarrow> (schema \<Rightarrow> bool \<Rightarrow> error + schema) \<Rightarrow> bool \<Rightarrow> schema result" where
  "traverse 0 s callback isRoot = None"
| "traverse (Suc n) s callback isRoot =
     (case callback s isRoot of
        Inl e \<Rightarrow> Some (Inl e)
      | Inr s' \<Rightarrow> mapM (traverseKey (\<lambda>c. traverse n c callback False)) s')"

text \<open>
  \<^verbatim>\<open>cloneDeep\<close> of lodash: a tree is a value, and its copy is the same value. (The
  store of the section on objects tells a copy from its original.)
\<close>

definition cloneDeep :: "schema \<Rightarrow> schema" where
  "cloneDeep s = s"

text \<open>\<^verbatim>\<open>Map.forEach\<close>, on the working copy: the entries in insertion order.\<close>

fun forEach :: "('f \<Rightarrow> string \<Rightarrow> 's \<Rightarrow> 's result) \<Rightarrow> (string \<times> 'f) list \<Rightarrow> 's \<Rightarrow> 's result" where
  "forEach f [] s = Return s"
| "forEach f (kr # rs) s = and_then (f (snd kr) (fst kr) s) (forEach f rs)"

text \<open>
  \<^verbatim>\<open>normalize\<close>. The call of \<^verbatim>\<open>log\<close> after every rule prints a line and is left
  out. The second argument is the depth allowed to every traversal.
\<close>

definition apply_rule :: "nat \<Rightarrow> string \<Rightarrow> 'a Options_scheme \<Rightarrow> tree Rule \<Rightarrow> string \<Rightarrow> schema \<Rightarrow> schema result" where
  "apply_rule n filename options rule key s =
     traverse n s (\<lambda>schema isRoot. rule schema filename (Options.truncate options) isRoot) True"

definition normalize :: "utils \<Rightarrow> nat \<Rightarrow> schema \<Rightarrow> string \<Rightarrow> tree Rule NormalizerOptions \<Rightarrow> schema result" where
  "normalize u n schema filename options =
     and_then (forEach (apply_rule n filename options) (rules u) (cloneDeep schema))
       (\<lambda>s. case normalizerRules options of
               None \<Rightarrow> Return s
             | Some userRules \<Rightarrow> forEach (apply_rule n filename options) userRules s)"

section \<open>The nodes of a schema tree\<close>

text \<open>
  The children of a node are the nodes the traversal goes on to from it, in the order of
  the node's keys; \<open>all_nodes P isRoot s\<close> says that \<open>P\<close> holds of every node the
  traversal of \<open>s\<close> reaches, with the flag it is visited under.
\<close>

definition nodes_of :: "tree json list \<Rightarrow> schema list" where
  "nodes_of vs = concat (map (\<lambda>v. case v of JObj (Node s) \<Rightarrow> [s] | _ \<Rightarrow> []) vs)"

definition children_of_key :: "string \<times> tree json \<Rightarrow> schema list" where
  "children_of_key kv =
     (case key_kind (fst kv) of
        KeyedNodes \<Rightarrow> (case snd kv of JObj (Node kvs) \<Rightarrow> nodes_of (map snd kvs) | _ \<Rightarrow> [])
      | NodeOrArray \<Rightarrow> (case snd kv of JArr xs \<Rightarrow> nodes_of xs | v \<Rightarrow> nodes_of [v])
      | NodeArray \<Rightarrow> (case snd kv of JArr xs \<Rightarrow> nodes_of xs | _ \<Rightarrow> [])
      | SingleNode \<Rightarrow> nodes_of [snd kv]
      | NotTraversed \<Rightarrow> [])"

definition children :: "schema \<Rightarrow> schema list" where
  "children s = concat (map children_of_key s)"

text \<open>A child is smaller than its parent: the recursion of \<open>all_nodes\<close> ends.\<close>

lemma nodes_of_size: "c \<in> set (nodes_of vs) \<Longrightarrow> size (Node c) < Suc (size_list (size_json size) vs)"
  by (induction vs) (auto simp: nodes_of_def split: json.splits tree.splits)

lemma size_list_map_snd:
  "size_list f (map snd kvs) \<le> size_list (size_prod (\<lambda>x. 0) f) kvs"
  by (induction kvs) auto

lemma children_of_key_size:
  assumes c: "c \<in> set (children_of_key kv)"
  shows "size (Node c) < Suc (size_prod (\<lambda>x. 0) (size_json size) kv)"
proof -
  obtain k v where kv: "kv = (k, v)" by (cases kv)
  have one: "c \<in> set (nodes_of [v]) \<Longrightarrow> size (Node c) < Suc (Suc (size_json size v))"
    using nodes_of_size [of c "[v]"] by simp
  have arr: "v = JArr xs \<Longrightarrow> c \<in> set (nodes_of xs) \<Longrightarrow> size (Node c) < Suc (Suc (size_json size v))" for xs
    using nodes_of_size [of c xs] by simp
  have obj: "v = JObj (Node kvs) \<Longrightarrow> c \<in> set (nodes_of (map snd kvs))
      \<Longrightarrow> size (Node c) < Suc (Suc (size_json size v))" for kvs
    using nodes_of_size [of c "map snd kvs"] size_list_map_snd [of "size_json size" kvs] by simp
  have "size (Node c) < Suc (Suc (size_json size v))"
  proof (cases "key_kind k")
    case KeyedNodes
    with c kv obj show ?thesis
      by (cases v) (auto simp: children_of_key_def split: tree.splits)
  next
    case NodeOrArray
    with c kv arr one show ?thesis
      by (cases v) (simp_all add: children_of_key_def)
  next
    case NodeArray
    with c kv arr show ?thesis
      by (cases v) (simp_all add: children_of_key_def)
  next
    case SingleNode
    with c kv one show ?thesis by (simp add: children_of_key_def)
  next
    case NotTraversed
    with c kv show ?thesis by (simp add: children_of_key_def)
  qed
  with kv show ?thesis by simp
qed

lemma children_size: "c \<in> set (children s) \<Longrightarrow> size (Node c) < size (Node s)"
proof (induction s)
  case Nil
  then show ?case by (simp add: children_def)
next
  case (Cons kv s)
  from Cons.prems have "c \<in> set (children_of_key kv) \<or> c \<in> set (children s)"
    by (auto simp: children_def)
  then show ?case
  proof
    assume "c \<in> set (children_of_key kv)"
    from children_of_key_size [OF this] show ?thesis by simp
  next
    assume "c \<in> set (children s)"
    from Cons.IH [OF this] show ?thesis by simp
  qed
qed

function all_nodes :: "(bool \<Rightarrow> schema \<Rightarrow> bool) \<Rightarrow> bool \<Rightarrow> schema \<Rightarrow> bool" where
  "all_nodes P isRoot s = (P isRoot s \<and> list_all (all_nodes P False) (children s))"
  by pat_completeness auto
termination
proof (relation "measure (\<lambda>(P, r, s). size (Node s))")
  show "wf (measure (\<lambda>(P, r, s). size (Node s)))" by simp
next
  fix P :: "bool \<Rightarrow> schema \<Rightarrow> bool" and isRoot :: bool and s c :: schema
  assume "c \<in> set (children s)"
  from children_size [OF this]
  show "((P, False, c), (P, isRoot, s)) \<in> measure (\<lambda>(P, r, s). size (Node s))"
    by simp
qed

declare all_nodes.simps [simp del]

text \<open>What a node holds at its own level: every nested object is blanked out.\<close>

definition shallow :: "schema \<Rightarrow> unit fields" where
  "shallow s = map (map_prod id (map_json (\<lambda>_. ()))) s"

section \<open>Objects in a store\<close>

text \<open>
  A tree cannot tell an object from its copy. For what a call leaves unchanged, objects
  live in a store: an object is its key list, a value that is an object is \<open>JObj a\<close> with
  \<open>a\<close> the object's address, and the store is the list of all objects, the object at
  address \<open>a\<close> being \<open>h ! a\<close>. A new object is appended. Arrays stay values: no
  built-in rule and no helper writes into an array it did not make. The built-in rules
  are the same functions as on trees (they are written for any kind of object
  reference).
\<close>

type_synonym addr = nat

type_synonym object = "addr fields"

type_synonym store = "object list"

text \<open>The values among \<open>vs\<close> that are objects.\<close>

definition objects_of :: "'r json list \<Rightarrow> 'r list" where
  "objects_of vs = concat (map (\<lambda>v. case v of JObj a \<Rightarrow> [a] | _ \<Rightarrow> []) vs)"

text \<open>
  The nodes the traversal goes on to from the value under one key, and from a node. Under
  properties, definitions and $defs the value is an object whose own values are the
  nodes.
\<close>

definition store_children_of_key :: "store \<Rightarrow> string \<times> addr json \<Rightarrow> addr list" where
  "store_children_of_key h kv =
     (case key_kind (fst kv) of
        KeyedNodes \<Rightarrow>
          (case snd kv of
             JObj d \<Rightarrow> if d < length h then objects_of (map snd (h ! d)) else []
           | _ \<Rightarrow> [])
      | NodeOrArray \<Rightarrow> (case snd kv of JArr xs \<Rightarrow> objects_of xs | v \<Rightarrow> objects_of [v])
      | NodeArray \<Rightarrow> (case snd kv of JArr xs \<Rightarrow> objects_of xs | _ \<Rightarrow> [])
      | SingleNode \<Rightarrow> objects_of [snd kv]
      | NotTraversed \<Rightarrow> [])"

definition store_children :: "store \<Rightarrow> object \<Rightarrow> addr list" where
  "store_children h x = concat (map (store_children_of_key h) x)"

text \<open>Running a list of state changes, each of which may raise or fail to return.\<close>

fun foldM :: "('a \<Rightarrow> 's \<Rightarrow> 's result) \<Rightarrow> 'a list \<Rightarrow> 's \<Rightarrow> 's result" where
  "foldM f [] s = Return s"
| "foldM f (x # xs) s = and_then (f x s) (foldM f xs)"

text \<open>
  A rule in the store, with the parameters of the source's \<^verbatim>\<open>Rule\<close>: the node
  and \<^verbatim>\<open>rootSchema\<close> are addresses, and the rule is any function from the store
  it finds to the store it leaves, to the error it raises, or to \<open>None\<close> when it does
  not return. This is what a rule of the caller's is. A built-in rule is put in the store
  by \<open>in_store\<close>: it writes the node it is handed.
\<close>

type_synonym store_Rule =
  "addr \<Rightarrow> addr \<Rightarrow> string \<Rightarrow> Options \<Rightarrow> bool \<Rightarrow> store \<Rightarrow> store result"

definition in_store :: "addr Rule \<Rightarrow> store_Rule" where
  "in_store rule schema rootSchema fileName options isRoot h =
     (if length h \<le> schema then Return h
      else case rule (h ! schema) fileName options isRoot of
             Inl e \<Rightarrow> Some (Inl e)
           | Inr x \<Rightarrow> Return (h[schema := x]))"

text \<open>
  Modelled from the spec: \<^verbatim>\<open>traverse\<close> of utils is missing (see the traversal of
  trees, which this one mirrors). The callback works on the store; the spec: "Traversal
  must visit every node exactly once per rule application", hence the list of the
  addresses already processed, which an object reached a second time (through an alias)
  is skipped by. The children are those the node has when the callback has returned.
\<close>

primrec store_traverse ::
  "nat \<Rightarrow> addr \<Rightarrow> (addr \<Rightarrow> bool \<Rightarrow> store \<Rightarrow> store result) \<Rightarrow> bool
    \<Rightarrow> store \<times> addr list \<Rightarrow> (store \<times> addr list) result" where
  "store_traverse 0 a callback isRoot st = None"
| "store_traverse (Suc n) a callback isRoot st =
     (if a \<in> set (snd st) \<or> length (fst st) \<le> a then Return st
      else and_then (callback a isRoot (fst st))
             (\<lambda>h. foldM (\<lambda>c. store_traverse n c callback False)
                    (if a < length h then store_children h (h ! a) else [])
                    (h, a # snd st)))"

text \<open>
  Modelled from the spec: \<^verbatim>\<open>cloneDeep\<close> is lodash's, not this repository's. The spec:
  "deep-copy the input". Every object reachable from the value is copied into a new
  object, once (the list \<open>m\<close> maps the objects already copied to their copies, so that
  sharing and cycles are kept); \<open>None\<close> when the depth allowed is used up.
\<close>

fun clone_list ::
  "('a \<Rightarrow> 's \<Rightarrow> ('b \<times> 's) option) \<Rightarrow> 'a list \<Rightarrow> 's \<Rightarrow> ('b list \<times> 's) option" where
  "clone_list g [] st = Some ([], st)"
| "clone_list g (x # xs) st =
     (case g x st of
        None \<Rightarrow> None
      | Some (y, st1) \<Rightarrow>
          (case clone_list g xs st1 of
             None \<Rightarrow> None
           | Some (ys, st2) \<Rightarrow> Some (y # ys, st2)))"

definition clone_field ::
  "('v \<Rightarrow> 's \<Rightarrow> ('v \<times> 's) option) \<Rightarrow> string \<times> 'v \<Rightarrow> 's \<Rightarrow> ((string \<times> 'v) \<times> 's) option" where
  "clone_field g kv st =
     (case g (snd kv) st of None \<Rightarrow> None | Some (v, st1) \<Rightarrow> Some ((fst kv, v), st1))"

primrec clone_value ::
  "nat \<Rightarrow> addr json \<Rightarrow> store \<times> (addr \<times> addr) list
    \<Rightarrow> (addr json \<times> store \<times> (addr \<times> addr) list) option" where
  "clone_value 0 v st = None"
| "clone_value (Suc n) v st =
     (case v of
        JObj a \<Rightarrow>
          (case map_of (snd st) a of
             Some a' \<Rightarrow> Some (JObj a', st)
           | None \<Rightarrow>
               if length (fst st) \<le> a then Some (JObj a, st)
               else
                 (case clone_list (clone_field (clone_value n)) (fst st ! a)
                         (fst st @ [[]], (a, length (fst st)) # snd st) of
                    None \<Rightarrow> None
                  | Some (x, st1) \<Rightarrow>
                      Some (JObj (length (fst st)), (fst st1)[length (fst st) := x], snd st1)))
      | JArr xs \<Rightarrow>
          (case clone_list (clone_value n) xs st of
             None \<Rightarrow> None
           | Some (ys, st1) \<Rightarrow> Some (JArr ys, st1))
      | _ \<Rightarrow> Some (v, st))"

definition store_cloneDeep :: "nat \<Rightarrow> store \<Rightarrow> addr \<Rightarrow> (addr \<times> store) option" where
  "store_cloneDeep n h a =
     (case clone_value n (JObj a) (h, []) of
        Some (JObj a', st) \<Rightarrow> Some (a', fst st)
      | _ \<Rightarrow> None)"

text \<open>
  \<^verbatim>\<open>normalize\<close> on the store: the caller's schema is the object at \<open>schema\<close>, the
  result is the address returned and the store the call leaves. Every rule is handed the
  copy as its \<^verbatim>\<open>rootSchema\<close>.
\<close>

definition store_apply_rule ::
  "nat \<Rightarrow> addr \<Rightarrow> string \<Rightarrow> 'a Options_scheme \<Rightarrow> store_Rule \<Rightarrow> string \<Rightarrow> store \<Rightarrow> store result" where
  "store_apply_rule n copy filename options rule key h =
     and_then
       (store_traverse n copy
          (\<lambda>schema isRoot. rule schema copy filename (Options.truncate options) isRoot)
          True (h, []))
       (\<lambda>st. Return (fst st))"

definition store_normalize ::
  "utils \<Rightarrow> nat \<Rightarrow> store \<Rightarrow> addr \<Rightarrow> string \<Rightarrow> store_Rule NormalizerOptions
    \<Rightarrow> (addr \<times> store) result" where
  "store_normalize u n h schema filename options =
     (case store_cloneDeep n h schema of
        None \<Rightarrow> None
      | Some (copy, h0) \<Rightarrow>
          and_then
            (forEach (\<lambda>rule. store_apply_rule n copy filename options (in_store rule))
               (rules u) h0)
            (\<lambda>h1. and_then
                     (case normalizerRules options of
                        None \<Rightarrow> Return h1
                      | Some userRules \<Rightarrow>
                          forEach (store_apply_rule n copy filename options) userRules h1)
                     (\<lambda>h2. Return (copy, h2))))"

text \<open>
  The references an object holds; and a rule that leaves in the node no reference that
  the node did not hold (every built-in rule is one).
\<close>

definition refs :: "'r fields \<Rightarrow> 'r set" where
  "refs x = (\<Union>kv \<in> set x. set_json (snd kv))"

definition forges_no_reference :: "'r Rule \<Rightarrow> bool" where
  "forges_no_reference rule =
     (\<forall>x fileName options isRoot x'. rule x fileName options isRoot = Inr x' \<longrightarrow> refs x' \<subseteq> refs x)"

section \<open>What a call leaves unchanged: the invariants\<close>

text \<open>
  \<open>closed n0 h\<close>: the objects of \<open>h\<close> from address \<open>n0\<close> on hold no reference to an
  object below \<open>n0\<close>.
\<close>

definition closed :: "nat \<Rightarrow> store \<Rightarrow> bool" where
  "closed n0 h = (\<forall>a. n0 \<le> a \<and> a < length h \<longrightarrow> refs (h ! a) \<subseteq> {a'. n0 \<le> a'})"

definition clone_inv :: "nat \<Rightarrow> store \<times> (addr \<times> addr) list \<Rightarrow> bool" where
  "clone_inv n0 st =
     (n0 \<le> length (fst st) \<and> closed n0 (fst st) \<and> (\<forall>p \<in> set (snd st). n0 \<le> snd p))"

text \<open>
  What one step of copying keeps: the invariant, the objects below \<open>n0\<close>, and the result
  \<open>R\<close> asks of the copy.
\<close>

definition keeps :: "nat \<Rightarrow> ('b \<Rightarrow> bool) \<Rightarrow> ('a \<Rightarrow> store \<times> (addr \<times> addr) list
    \<Rightarrow> ('b \<times> store \<times> (addr \<times> addr) list) option) \<Rightarrow> bool" where
  "keeps n0 R g =
     (\<forall>x st y st'. g x st = Some (y, st') \<longrightarrow> clone_inv n0 st \<longrightarrow>
        clone_inv n0 st' \<and> take n0 (fst st') = take n0 (fst st) \<and> R y)"

text \<open>
  What a state change keeps: the closed part from \<open>n0\<close> on, and every object below.
\<close>

definition frames :: "nat \<Rightarrow> (store \<times> 'x \<Rightarrow> (store \<times> 'x) result) \<Rightarrow> bool" where
  "frames n0 step =
     (\<forall>st st'. step st = Some (Inr st') \<longrightarrow> closed n0 (fst st) \<longrightarrow>
        closed n0 (fst st') \<and> take n0 (fst st') = take n0 (fst st))"

text \<open>
  A rule that leaves the caller's objects alone, the caller's objects being those below
  \<open>n0\<close>: handed a node and a root made since, in a store in which no object made since
  refers to one of the caller's, it changes none of the caller's objects, and leaves such
  a store again (it stores no reference to one of the caller's objects).
\<close>

definition leaves_callers_objects :: "nat \<Rightarrow> store_Rule \<Rightarrow> bool" where
  "leaves_callers_objects n0 rule =
     (\<forall>schema rootSchema fileName options isRoot h h'.
        n0 \<le> schema \<and> n0 \<le> rootSchema \<and> closed n0 h
        \<and> rule schema rootSchema fileName options isRoot h = Some (Inr h')
        \<longrightarrow> closed n0 h' \<and> take n0 h' = take n0 h)"

section \<open>Nodes a rule leaves alone\<close>

text \<open>
  For every built-in rule, the nodes on which its condition is false, or on which its
  assignment changes nothing. \<open>type_ok\<close> is the one assumption on the input: no entry
  of a type array is itself an array (type names are strings).
\<close>

definition type_ok :: "'r fields \<Rightarrow> bool" where
  "type_ok s =
     (case map_of s ''type'' of
        Some (JArr ts) \<Rightarrow> list_all (\<lambda>t. \<not> isArray (Some t)) ts
      | _ \<Rightarrow> True)"

definition nf_null_type :: "'r fields \<Rightarrow> bool" where
  "nf_null_type s =
     (case (map_of s ''enum'', map_of s ''type'') of
        (Some (JArr es), Some (JArr ts)) \<Rightarrow> \<not> (JNull \<in> set es \<and> JStr ''null'' \<in> set ts)
      | _ \<Rightarrow> True)"

definition nf_unary_type :: "'r fields \<Rightarrow> bool" where
  "nf_unary_type s = (case map_of s ''type'' of Some (JArr [t]) \<Rightarrow> False | _ \<Rightarrow> True)"

definition nf_required :: "'r fields \<Rightarrow> bool" where
  "nf_required s = (\<not> (isObjectType s \<and> map_of s ''required'' = None))"

definition nf_required_false :: "'r fields \<Rightarrow> bool" where
  "nf_required_false s = (map_of s ''required'' \<noteq> Some (JBool False))"

definition nf_additionalProperties :: "'r fields \<Rightarrow> bool" where
  "nf_additionalProperties s =
     (\<not> (isObjectType s \<and> map_of s ''additionalProperties'' = None
         \<and> map_of s ''patternProperties'' = None))"

definition nf_id :: "utils \<Rightarrow> string \<Rightarrow> bool \<Rightarrow> 'r fields \<Rightarrow> bool" where
  "nf_id u fileName isRoot s =
     (\<not> (isRoot \<and> \<not> truthy (map_of s ''id''))
      \<or> map_of s ''id'' = Some (JStr (toSafeString u (justName u fileName))))"

definition nf_escaped :: "'r fields \<Rightarrow> bool" where
  "nf_escaped s =
     (case map_of s ''description'' of Some (JStr d) \<Rightarrow> escape_close d = d | _ \<Rightarrow> True)"

definition nf_removed :: "'r fields \<Rightarrow> bool" where
  "nf_removed s = (map_of s ''maxItems'' = None \<and> map_of s ''minItems'' = None)"

definition nf_minItems :: "'r fields \<Rightarrow> bool" where
  "nf_minItems s =
     (\<not> isArrayType s \<or> (case map_of s ''minItems'' of Some (JNum n) \<Rightarrow> True | _ \<Rightarrow> False))"

definition nf_items :: "'r fields \<Rightarrow> bool" where
  "nf_items s =
     (\<not> (truthy (map_of s ''items'') \<and> \<not> isArray (map_of s ''items'')
          \<and> (hasMaxItems s \<or> hasMinItems s))
      \<and> (case (map_of s ''items'', map_of s ''maxItems'') of
            (Some (JArr xs), Some (JNum n)) \<Rightarrow> \<not> (0 \<le> n \<and> n < int (length xs))
          | _ \<Rightarrow> True))"

definition nf_defs :: "'r fields \<Rightarrow> bool" where
  "nf_defs s = (\<not> truthy (map_of s ''$defs''))"

definition nf_const :: "'r fields \<Rightarrow> bool" where
  "nf_const s = (\<not> truthy (map_of s ''const''))"

text \<open>
  What holds of a node once the first \<open>j\<close> rules of the registry have run on it.
\<close>

definition stage :: "nat \<Rightarrow> utils \<Rightarrow> string \<Rightarrow> bool \<Rightarrow> bool \<Rightarrow> 'r fields \<Rightarrow> bool" where
  "stage j u fileName ignore isRoot s =
     (type_ok s
      \<and> (1 \<le> j \<longrightarrow> nf_null_type s)
      \<and> (2 \<le> j \<longrightarrow> nf_unary_type s)
      \<and> (3 \<le> j \<longrightarrow> nf_required s)
      \<and> (4 \<le> j \<longrightarrow> nf_required_false s)
      \<and> (5 \<le> j \<longrightarrow> nf_additionalProperties s)
      \<and> (6 \<le> j \<longrightarrow> nf_id u fileName isRoot s)
      \<and> (7 \<le> j \<longrightarrow> nf_escaped s)
      \<and> (8 \<le> j \<longrightarrow> (if ignore then nf_removed s else True))
      \<and> (9 \<le> j \<longrightarrow> (if ignore then True else nf_minItems s))
      \<and> (10 \<le> j \<longrightarrow> (if ignore then True else nf_items s))
      \<and> (11 \<le> j \<longrightarrow> nf_defs s)
      \<and> (12 \<le> j \<longrightarrow> nf_const s))"

section \<open>Unfolding the model on a concrete schema\<close>

lemmas result_simps =
  Return_def and_then_def traverseValue_def traverseArray_def traverseObjectKeys_def
  traverseKey_def key_kind_def apply_rule_def normalize_def cloneDeep_def rules_def Options.defs

lemmas rule_defs =
  rule_remove_null_type_def rule_destructure_unary_types_def rule_add_empty_required_def
  rule_required_false_def rule_default_additionalProperties_def rule_default_id_def
  rule_escape_jsdoc_def rule_remove_max_min_items_def rule_normalise_minItems_def
  rule_normalize_items_def rule_defs_to_definitions_def rule_const_to_enum_def
  hasType_def isObjectType_def isArrayType_def hasMaxItems_def hasMinItems_def
  items_to_tuple_def items_slice_def escapeBlockComment_def js_or_def

lemmas store_simps = store_normalize_def store_cloneDeep_def store_apply_rule_def
  store_children_def store_children_of_key_def objects_of_def clone_field_def in_store_def

section \<open>Traversals, node by node\<close>

text \<open>
  A traversal that returns has run its callback on the node and then itself, one level
  less deep, on every child of the mutated node; nothing else of the node changes.
\<close>

lemma and_then_Inr:
  "and_then m f = Some (Inr y) \<longleftrightarrow> (\<exists>x. m = Some (Inr x) \<and> f x = Some (Inr y))"
  by (auto simp: and_then_def split: option.splits sum.splits)

lemma and_then_Return [simp]: "and_then (Some (Inr x)) f = f x"
  by (simp add: and_then_def)

lemma mapM_Inr:
  "mapM g xs = Some (Inr ys) \<longleftrightarrow> list_all2 (\<lambda>x y. g x = Some (Inr y)) xs ys"
proof (induction xs arbitrary: ys)
  case Nil
  then show ?case by (auto simp: Return_def)
next
  case (Cons x xs)
  show ?case
    by (cases ys) (auto simp: and_then_Inr Return_def Cons.IH)
qed

lemma traverseValue_Inr:
  assumes "traverseValue g v = Some (Inr v')"
  shows "map_json (\<lambda>_. ()) v' = map_json (\<lambda>_. ()) v
       \<and> list_all2 (\<lambda>c c'. g c = Some (Inr c')) (nodes_of [v]) (nodes_of [v'])"
  using assms
  by (cases v) (auto simp: traverseValue_def nodes_of_def and_then_Inr Return_def split: tree.splits)

lemma nodes_of_Cons: "nodes_of (v # vs) = nodes_of [v] @ nodes_of vs"
  by (simp add: nodes_of_def)

lemma nodes_of_Nil [simp]: "nodes_of [] = []"
  by (simp add: nodes_of_def)

lemma traverseValues_Inr:
  assumes "list_all2 (\<lambda>v v'. traverseValue g v = Some (Inr v')) vs vs'"
  shows "map (map_json (\<lambda>_. ())) vs' = map (map_json (\<lambda>_. ())) vs
       \<and> list_all2 (\<lambda>c c'. g c = Some (Inr c')) (nodes_of vs) (nodes_of vs')"
  using assms
proof (induction rule: list_all2_induct)
  case Nil
  then show ?case by simp
next
  case (Cons v vs v' vs')
  from traverseValue_Inr [OF Cons.hyps(1)] Cons.IH
  show ?case
    by (simp add: nodes_of_Cons [of v vs] nodes_of_Cons [of v' vs'] list_all2_appendI)
qed

lemma traverseArray_Inr:
  assumes "traverseArray g v = Some (Inr v')"
  shows "map_json (\<lambda>_. ()) v' = map_json (\<lambda>_. ()) v
       \<and> (case v of JArr xs \<Rightarrow> (case v' of JArr xs' \<Rightarrow>
              list_all2 (\<lambda>c c'. g c = Some (Inr c')) (nodes_of xs) (nodes_of xs') | _ \<Rightarrow> False)
          | _ \<Rightarrow> v' = v)"
  using assms
  by (cases v) (auto simp: traverseArray_def and_then_Inr Return_def mapM_Inr dest: traverseValues_Inr)

lemma traverseObjectKeys_Inr:
  assumes "traverseObjectKeys g v = Some (Inr v')"
  shows "map_json (\<lambda>_. ()) v' = map_json (\<lambda>_. ()) v
       \<and> (case v of JObj (Node kvs) \<Rightarrow> (case v' of JObj (Node kvs') \<Rightarrow>
              list_all2 (\<lambda>c c'. g c = Some (Inr c')) (nodes_of (map snd kvs)) (nodes_of (map snd kvs'))
              | _ \<Rightarrow> False)
          | _ \<Rightarrow> v' = v)"
proof (cases v)
  case (JObj t)
  obtain kvs where t: "t = Node kvs" by (cases t)
  from assms JObj t obtain kvs' where v': "v' = JObj (Node kvs')"
    and all: "list_all2 (\<lambda>kv kv'. and_then (traverseValue g (snd kv)) (\<lambda>c. Return (fst kv, c)) = Some (Inr kv'))
                kvs kvs'"
    by (auto simp: traverseObjectKeys_def and_then_Inr Return_def mapM_Inr)
  from all have "list_all2 (\<lambda>v v'. traverseValue g v = Some (Inr v')) (map snd kvs) (map snd kvs')"
    by (induction rule: list_all2_induct) (auto simp: and_then_Inr Return_def)
  from traverseValues_Inr [OF this] JObj t v' show ?thesis by simp
qed (use assms in \<open>auto simp: traverseObjectKeys_def Return_def\<close>)

lemma traverseKey_Inr:
  assumes "traverseKey g kv = Some (Inr kv')"
  shows "fst kv' = fst kv \<and> map_json (\<lambda>_. ()) (snd kv') = map_json (\<lambda>_. ()) (snd kv)
       \<and> list_all2 (\<lambda>c c'. g c = Some (Inr c')) (children_of_key kv) (children_of_key kv')"
proof -
  obtain k v where kv: "kv = (k, v)" by (cases kv)
  obtain k' v' where kv': "kv' = (k', v')" by (cases kv')
  show ?thesis
  proof (cases "key_kind k")
    case KeyedNodes
    with assms kv kv' have k: "k' = k" and "traverseObjectKeys g v = Some (Inr v')"
      by (auto simp: traverseKey_def and_then_Inr Return_def)
    from traverseObjectKeys_Inr [OF this(2)] k KeyedNodes kv kv' show ?thesis
      by (cases v; cases v') (auto simp: children_of_key_def split: tree.splits)
  next
    case NodeOrArray
    show ?thesis
    proof (cases "isArray (Some v)")
      case True
      with NodeOrArray assms kv kv' have k: "k' = k" and "traverseArray g v = Some (Inr v')"
        by (auto simp: traverseKey_def and_then_Inr Return_def)
      from traverseArray_Inr [OF this(2)] k NodeOrArray kv kv' True show ?thesis
        by (cases v; cases v') (auto simp: children_of_key_def)
    next
      case False
      with NodeOrArray assms kv kv' have k: "k' = k" and "traverseValue g v = Some (Inr v')"
        by (auto simp: traverseKey_def and_then_Inr Return_def)
      from traverseValue_Inr [OF this(2)] k NodeOrArray kv kv' False show ?thesis
        by (cases v; cases v') (auto simp: children_of_key_def)
    qed
  next
    case NodeArray
    with assms kv kv' have k: "k' = k" and "traverseArray g v = Some (Inr v')"
      by (auto simp: traverseKey_def and_then_Inr Return_def)
    from traverseArray_Inr [OF this(2)] k NodeArray kv kv' show ?thesis
      by (cases v; cases v') (auto simp: children_of_key_def)
  next
    case SingleNode
    with assms kv kv' have k: "k' = k" and "traverseValue g v = Some (Inr v')"
      by (auto simp: traverseKey_def and_then_Inr Return_def)
    from traverseValue_Inr [OF this(2)] k SingleNode kv kv' show ?thesis
      by (simp add: children_of_key_def)
  next
    case NotTraversed
    with assms kv kv' show ?thesis
      by (auto simp: traverseKey_def and_then_Inr Return_def children_of_key_def)
  qed
qed

lemma traverseKeys_Inr:
  assumes "mapM (traverseKey g) s = Some (Inr s')"
  shows "shallow s' = shallow s
       \<and> list_all2 (\<lambda>c c'. g c = Some (Inr c')) (children s) (children s')"
proof -
  from assms have "list_all2 (\<lambda>kv kv'. traverseKey g kv = Some (Inr kv')) s s'"
    by (simp add: mapM_Inr)
  then show ?thesis
  proof (induction rule: list_all2_induct)
    case Nil
    then show ?case by (simp add: shallow_def children_def)
  next
    case (Cons kv s kv' s')
    from traverseKey_Inr [OF Cons.hyps(1)] Cons.IH show ?case
      by (cases kv; cases kv') (auto simp: shallow_def children_def list_all2_appendI)
  qed
qed

lemma traverse_Suc_Inr:
  assumes "traverse (Suc n) s cb isRoot = Some (Inr s')"
  shows "\<exists>x. cb s isRoot = Inr x \<and> shallow s' = shallow x
       \<and> list_all2 (\<lambda>c c'. traverse n c cb False = Some (Inr c')) (children x) (children s')"
proof (cases "cb s isRoot")
  case (Inl e)
  with assms show ?thesis by simp
next
  case (Inr x)
  with assms have "mapM (traverseKey (\<lambda>c. traverse n c cb False)) x = Some (Inr s')"
    by simp
  from traverseKeys_Inr [OF this] Inr show ?thesis by simp
qed

lemma list_all2_in_right:
  "list_all2 P xs ys \<Longrightarrow> y \<in> set ys \<Longrightarrow> \<exists>x\<in>set xs. P x y"
  by (induction rule: list_all2_induct) auto

text \<open>A traversal establishes, at every node, what its rule establishes at one node.\<close>

lemma traverse_all_nodes:
  assumes step: "\<And>x isRoot x'. I isRoot x \<Longrightarrow> cb x isRoot = Inr x'
             \<Longrightarrow> J isRoot x' \<and> set (children x') \<subseteq> set (children x)"
    and shallowJ: "\<And>isRoot x y. shallow x = shallow y \<Longrightarrow> J isRoot x \<Longrightarrow> J isRoot y"
  shows "traverse n s cb isRoot = Some (Inr s') \<Longrightarrow> all_nodes I isRoot s \<Longrightarrow> all_nodes J isRoot s'"
proof (induction n arbitrary: s s' isRoot)
  case 0
  then show ?case by simp
next
  case (Suc n)
  from traverse_Suc_Inr [OF Suc.prems(1)] obtain x where x: "cb s isRoot = Inr x"
    and sh: "shallow s' = shallow x"
    and ch: "list_all2 (\<lambda>c c'. traverse n c cb False = Some (Inr c')) (children x) (children s')"
    by blast
  from Suc.prems(2) have Is: "I isRoot s" and Ic: "\<forall>c\<in>set (children s). all_nodes I False c"
    by (simp_all add: all_nodes.simps [of I isRoot s] list_all_iff)
  from step [OF Is x] have Jx: "J isRoot x" and sub: "set (children x) \<subseteq> set (children s)"
    by simp_all
  from shallowJ [OF sh [symmetric] Jx] have Js': "J isRoot s'" .
  have "all_nodes J False c'" if "c' \<in> set (children s')" for c'
  proof -
    from list_all2_in_right [OF ch that]
    obtain c where "c \<in> set (children x)" and "traverse n c cb False = Some (Inr c')"
      by blast
    with Suc.IH [where s = c and s' = c' and isRoot = False] Ic sub show ?thesis by blast
  qed
  with Js' show ?case
    by (simp add: all_nodes.simps [of J isRoot s'] list_all_iff)
qed

lemma traverseValues_id:
  assumes "\<forall>c\<in>set (nodes_of vs). g c = Some (Inr c)"
  shows "mapM (traverseValue g) vs = Some (Inr vs)"
  using assms
proof (induction vs)
  case Nil
  then show ?case by (simp add: Return_def)
next
  case (Cons v vs)
  from Cons.prems have "traverseValue g v = Some (Inr v)"
    by (cases v) (auto simp: traverseValue_def nodes_of_def and_then_def Return_def split: tree.splits)
  moreover from Cons have "mapM (traverseValue g) vs = Some (Inr vs)"
    by (simp add: nodes_of_Cons [of v vs])
  ultimately show ?case by (simp add: and_then_def Return_def)
qed

lemma traverseValue_id:
  assumes "\<forall>c\<in>set (nodes_of [v]). g c = Some (Inr c)"
  shows "traverseValue g v = Some (Inr v)"
  using traverseValues_id [OF assms]
  by (auto simp: and_then_Inr Return_def)

lemma traverseArray_id:
  assumes "\<And>xs. v = JArr xs \<Longrightarrow> \<forall>c\<in>set (nodes_of xs). g c = Some (Inr c)"
  shows "traverseArray g v = Some (Inr v)"
  using assms
  by (cases v) (simp_all add: traverseArray_def Return_def traverseValues_id and_then_def)

lemma traverseObjectKeys_id:
  assumes "\<And>kvs. v = JObj (Node kvs) \<Longrightarrow> \<forall>c\<in>set (nodes_of (map snd kvs)). g c = Some (Inr c)"
  shows "traverseObjectKeys g v = Some (Inr v)"
proof (cases v)
  case (JObj t)
  obtain kvs where t: "t = Node kvs" by (cases t)
  have inner: "mapM (\<lambda>kv. and_then (traverseValue g (snd kv)) (\<lambda>c. Return (fst kv, c))) kvs' = Some (Inr kvs')"
    if "\<forall>c\<in>set (nodes_of (map snd kvs')). g c = Some (Inr c)" for kvs'
    using that
  proof (induction kvs')
    case Nil
    then show ?case by (simp add: Return_def)
  next
    case (Cons kv kvs')
    from Cons.prems have "traverseValue g (snd kv) = Some (Inr (snd kv))"
      by (intro traverseValue_id) (simp add: nodes_of_Cons [of "snd kv" "map snd kvs'"])
    moreover from Cons have "mapM (\<lambda>kv. and_then (traverseValue g (snd kv)) (\<lambda>c. Return (fst kv, c))) kvs'
        = Some (Inr kvs')"
      by (simp add: nodes_of_Cons [of "snd kv" "map snd kvs'"])
    ultimately show ?case by (simp add: and_then_def Return_def)
  qed
  from JObj t have "mapM (\<lambda>kv. and_then (traverseValue g (snd kv)) (\<lambda>c. Return (fst kv, c))) kvs
      = Some (Inr kvs)"
    by (intro inner assms) simp
  with JObj t show ?thesis
    by (simp add: traverseObjectKeys_def Return_def)
qed (simp_all add: traverseObjectKeys_def Return_def)

lemma traverseKey_id:
  assumes "\<forall>c\<in>set (children_of_key kv). g c = Some (Inr c)"
  shows "traverseKey g kv = Some (Inr kv)"
proof -
  obtain k v where kv: "kv = (k, v)" by (cases kv)
  show ?thesis
  proof (cases "key_kind k")
    case KeyedNodes
    with assms kv have "traverseObjectKeys g v = Some (Inr v)"
      by (intro traverseObjectKeys_id) (simp add: children_of_key_def)
    with KeyedNodes kv show ?thesis
      by (simp add: traverseKey_def and_then_def Return_def)
  next
    case NodeOrArray
    show ?thesis
    proof (cases "isArray (Some v)")
      case True
      with NodeOrArray assms kv have "traverseArray g v = Some (Inr v)"
        by (intro traverseArray_id) (simp add: children_of_key_def)
      with True NodeOrArray kv show ?thesis
        by (simp add: traverseKey_def and_then_def Return_def)
    next
      case False
      with NodeOrArray assms kv have "traverseValue g v = Some (Inr v)"
        by (intro traverseValue_id) (cases v; simp add: children_of_key_def)
      with False NodeOrArray kv show ?thesis
        by (simp add: traverseKey_def and_then_def Return_def)
    qed
  next
    case NodeArray
    with assms kv have "traverseArray g v = Some (Inr v)"
      by (intro traverseArray_id) (simp add: children_of_key_def)
    with NodeArray kv show ?thesis
      by (simp add: traverseKey_def and_then_def Return_def)
  next
    case SingleNode
    with assms kv have "traverseValue g v = Some (Inr v)"
      by (intro traverseValue_id) (simp add: children_of_key_def)
    with SingleNode kv show ?thesis
      by (simp add: traverseKey_def and_then_def Return_def)
  next
    case NotTraversed
    with kv show ?thesis
      by (simp add: traverseKey_def and_then_def Return_def)
  qed
qed

lemma traverseKeys_id:
  assumes "\<forall>c\<in>set (children s). g c = Some (Inr c)"
  shows "mapM (traverseKey g) s = Some (Inr s)"
  using assms
proof (induction s)
  case Nil
  then show ?case by (simp add: Return_def)
next
  case (Cons kv s)
  from Cons.prems have "traverseKey g kv = Some (Inr kv)"
    by (intro traverseKey_id) (simp add: children_def)
  moreover from Cons have "mapM (traverseKey g) s = Some (Inr s)"
    by (simp add: children_def)
  ultimately show ?case by (simp add: and_then_def Return_def)
qed

lemma traverse_fixpoint:
  assumes fixp: "\<And>x isRoot. J isRoot x \<Longrightarrow> cb' x isRoot = Inr x"
  shows "traverse n s cb isRoot = Some (Inr s') \<Longrightarrow> all_nodes J isRoot s'
         \<Longrightarrow> traverse n s' cb' isRoot = Some (Inr s')"
proof (induction n arbitrary: s s' isRoot)
  case 0
  then show ?case by simp
next
  case (Suc n)
  from traverse_Suc_Inr [OF Suc.prems(1)] obtain x where
    ch: "list_all2 (\<lambda>c c'. traverse n c cb False = Some (Inr c')) (children x) (children s')"
    by blast
  from Suc.prems(2) have Js: "J isRoot s'" and Jc: "\<forall>c\<in>set (children s'). all_nodes J False c"
    by (simp_all add: all_nodes.simps [of J isRoot s'] list_all_iff)
  have "traverse n c' cb' False = Some (Inr c')" if "c' \<in> set (children s')" for c'
  proof -
    from list_all2_in_right [OF ch that]
    obtain c where "traverse n c cb False = Some (Inr c')"
      by blast
    with Suc.IH [where s = c and s' = c' and isRoot = False] Jc that show ?thesis by blast
  qed
  then have "mapM (traverseKey (\<lambda>c. traverse n c cb' False)) s' = Some (Inr s')"
    by (intro traverseKeys_id) simp
  with fixp [OF Js] show ?case by simp
qed

section \<open>The rules look at one level only\<close>

text \<open>
  Whether a rule leaves a node alone depends on the node's own level only, not on what
  its nested objects hold: the normal forms are invariant under any renaming of the
  nested objects.
\<close>

lemma map_of_mapf: "map_of (map (map_prod id (map_json f)) s) k = map_option (map_json f) (map_of s k)"
  by (induction s) auto

lemma map_json_eq_simps [simp]:
  "map_json f v = JNull \<longleftrightarrow> v = JNull"
  "map_json f v = JBool b \<longleftrightarrow> v = JBool b"
  "map_json f v = JNum n \<longleftrightarrow> v = JNum n"
  "map_json f v = JStr t \<longleftrightarrow> v = JStr t"
  "JNull = map_json f v \<longleftrightarrow> v = JNull"
  "JBool b = map_json f v \<longleftrightarrow> v = JBool b"
  "JNum n = map_json f v \<longleftrightarrow> v = JNum n"
  "JStr t = map_json f v \<longleftrightarrow> v = JStr t"
  by (cases v; auto)+

lemma truthy_map [simp]: "truthy (map_option (map_json f) v) = truthy v"
  by (cases v; cases "the v") auto

lemma truthy_map' [simp]: "truthy (Some (map_json f v)) = truthy (Some v)"
  by (cases v) auto

lemma isArray_map [simp]: "isArray (map_option (map_json f) v) = isArray v"
  by (cases v; cases "the v") auto

lemma isArray_map' [simp]: "isArray (Some (map_json f v)) = isArray (Some v)"
  by (cases v) auto

lemma mem_map_json [simp]:
  "JNull \<in> map_json f ` A \<longleftrightarrow> JNull \<in> A"
  "JStr t \<in> map_json f ` A \<longleftrightarrow> JStr t \<in> A"
  by (auto simp: image_iff)

lemma hasType_map [simp]: "hasType (map (map_prod id (map_json f)) s) t = hasType s t"
  by (cases "map_of s ''type''"; cases "the (map_of s ''type'')") (auto simp: hasType_def map_of_mapf)

lemma isObjectType_map [simp]: "isObjectType (map (map_prod id (map_json f)) s) = isObjectType s"
  by (simp add: isObjectType_def map_of_mapf)

lemma isArrayType_map [simp]: "isArrayType (map (map_prod id (map_json f)) s) = isArrayType s"
  by (simp add: isArrayType_def map_of_mapf)

lemma hasMaxItems_map [simp]: "hasMaxItems (map (map_prod id (map_json f)) s) = hasMaxItems s"
  by (cases "map_of s ''maxItems''"; cases "the (map_of s ''maxItems'')") (auto simp: hasMaxItems_def map_of_mapf)

lemma hasMinItems_map [simp]: "hasMinItems (map (map_prod id (map_json f)) s) = hasMinItems s"
  by (cases "map_of s ''minItems''"; cases "the (map_of s ''minItems'')") (auto simp: hasMinItems_def map_of_mapf)

lemma type_ok_map: "type_ok (map (map_prod id (map_json f)) s) = type_ok s"
  by (cases "map_of s ''type''"; cases "the (map_of s ''type'')")
     (auto simp: type_ok_def map_of_mapf list_all_iff)

lemma nf_null_type_map: "nf_null_type (map (map_prod id (map_json f)) s) = nf_null_type s"
  by (cases "map_of s ''type''"; cases "the (map_of s ''type'')";
      cases "map_of s ''enum''"; cases "the (map_of s ''enum'')")
     (auto simp: nf_null_type_def map_of_mapf)

lemma nf_unary_type_map: "nf_unary_type (map (map_prod id (map_json f)) s) = nf_unary_type s"
  by (cases "map_of s ''type''"; cases "the (map_of s ''type'')")
     (auto simp: nf_unary_type_def map_of_mapf split: list.splits)

lemma nf_required_map: "nf_required (map (map_prod id (map_json f)) s) = nf_required s"
  by (simp add: nf_required_def map_of_mapf)

lemma nf_required_false_map: "nf_required_false (map (map_prod id (map_json f)) s) = nf_required_false s"
  by (cases "map_of s ''required''") (auto simp add: nf_required_false_def map_of_mapf)

lemma nf_additionalProperties_map:
  "nf_additionalProperties (map (map_prod id (map_json f)) s) = nf_additionalProperties s"
  by (simp add: nf_additionalProperties_def map_of_mapf)

lemma nf_id_map: "nf_id u fn r (map (map_prod id (map_json f)) s) = nf_id u fn r s"
  by (cases "map_of s ''id''") (auto simp add: nf_id_def map_of_mapf)

lemma nf_escaped_map: "nf_escaped (map (map_prod id (map_json f)) s) = nf_escaped s"
  by (cases "map_of s ''description''"; cases "the (map_of s ''description'')")
     (auto simp: nf_escaped_def map_of_mapf)

lemma nf_removed_map: "nf_removed (map (map_prod id (map_json f)) s) = nf_removed s"
  by (simp add: nf_removed_def map_of_mapf)

lemma nf_minItems_map: "nf_minItems (map (map_prod id (map_json f)) s) = nf_minItems s"
  by (cases "map_of s ''minItems''"; cases "the (map_of s ''minItems'')")
     (auto simp: nf_minItems_def map_of_mapf)

lemma nf_items_map: "nf_items (map (map_prod id (map_json f)) s) = nf_items s"
  by (cases "map_of s ''items''"; cases "the (map_of s ''items'')";
      cases "map_of s ''maxItems''"; cases "the (map_of s ''maxItems'')")
     (auto simp: nf_items_def map_of_mapf)

lemma nf_defs_map: "nf_defs (map (map_prod id (map_json f)) s) = nf_defs s"
  by (simp add: nf_defs_def map_of_mapf)

lemma nf_const_map: "nf_const (map (map_prod id (map_json f)) s) = nf_const s"
  by (simp add: nf_const_def map_of_mapf)

lemmas nf_map = type_ok_map nf_null_type_map nf_unary_type_map nf_required_map nf_required_false_map
  nf_additionalProperties_map nf_id_map nf_escaped_map nf_removed_map nf_minItems_map nf_items_map
  nf_defs_map nf_const_map

lemma stage_map: "stage j u fn b r (map (map_prod id (map_json f)) s) = stage j u fn b r s"
  by (simp add: stage_def nf_map)

lemma stage_shallow:
  assumes "shallow x = shallow y" and "stage j u fn b r x"
  shows "stage j u fn b r y"
proof -
  have "stage j u fn b r y = stage j u fn b r (shallow y)"
    by (simp add: shallow_def stage_map)
  also have "\<dots> = stage j u fn b r (shallow x)" by (simp add: assms(1))
  also have "\<dots> = stage j u fn b r x" by (simp add: shallow_def stage_map)
  finally show ?thesis using assms(2) by simp
qed

subsection \<open>Normal forms read few keys\<close>

lemma hasType_cong: "map_of s' ''type'' = map_of s ''type'' \<Longrightarrow> hasType s' t = hasType s t"
  by (simp add: hasType_def)

lemma isObjectType_cong:
  "map_of s' ''type'' = map_of s ''type'' \<Longrightarrow> map_of s' ''properties'' = map_of s ''properties''
   \<Longrightarrow> isObjectType s' = isObjectType s"
  by (simp add: isObjectType_def hasType_cong [of s' s])

lemma isArrayType_cong:
  "map_of s' ''type'' = map_of s ''type'' \<Longrightarrow> map_of s' ''items'' = map_of s ''items''
   \<Longrightarrow> isArrayType s' = isArrayType s"
  by (simp add: isArrayType_def hasType_cong [of s' s])

lemma type_ok_cong: "map_of s' ''type'' = map_of s ''type'' \<Longrightarrow> type_ok s' = type_ok s"
  by (simp add: type_ok_def)

lemma nf_null_type_cong:
  "map_of s' ''type'' = map_of s ''type'' \<Longrightarrow> map_of s' ''enum'' = map_of s ''enum''
   \<Longrightarrow> nf_null_type s' = nf_null_type s"
  by (simp add: nf_null_type_def)

lemma nf_unary_type_cong:
  "map_of s' ''type'' = map_of s ''type'' \<Longrightarrow> nf_unary_type s' = nf_unary_type s"
  by (simp add: nf_unary_type_def)

lemma nf_required_cong:
  "map_of s' ''type'' = map_of s ''type'' \<Longrightarrow> map_of s' ''properties'' = map_of s ''properties''
   \<Longrightarrow> map_of s' ''required'' = map_of s ''required'' \<Longrightarrow> nf_required s' = nf_required s"
  by (simp add: nf_required_def isObjectType_cong [of s' s])

lemma nf_required_false_cong:
  "map_of s' ''required'' = map_of s ''required'' \<Longrightarrow> nf_required_false s' = nf_required_false s"
  by (simp add: nf_required_false_def)

lemma nf_additionalProperties_cong:
  "map_of s' ''type'' = map_of s ''type'' \<Longrightarrow> map_of s' ''properties'' = map_of s ''properties''
   \<Longrightarrow> map_of s' ''additionalProperties'' = map_of s ''additionalProperties''
   \<Longrightarrow> map_of s' ''patternProperties'' = map_of s ''patternProperties''
   \<Longrightarrow> nf_additionalProperties s' = nf_additionalProperties s"
  by (simp add: nf_additionalProperties_def isObjectType_cong [of s' s])

lemma nf_id_cong:
  "map_of s' ''id'' = map_of s ''id'' \<Longrightarrow> nf_id u fn r s' = nf_id u fn r s"
  by (simp add: nf_id_def)

lemma nf_escaped_cong:
  "map_of s' ''description'' = map_of s ''description'' \<Longrightarrow> nf_escaped s' = nf_escaped s"
  by (simp add: nf_escaped_def)

lemma nf_removed_cong:
  "map_of s' ''maxItems'' = map_of s ''maxItems'' \<Longrightarrow> map_of s' ''minItems'' = map_of s ''minItems''
   \<Longrightarrow> nf_removed s' = nf_removed s"
  by (simp add: nf_removed_def)

lemma nf_minItems_cong:
  "map_of s' ''type'' = map_of s ''type'' \<Longrightarrow> map_of s' ''items'' = map_of s ''items''
   \<Longrightarrow> map_of s' ''minItems'' = map_of s ''minItems'' \<Longrightarrow> nf_minItems s' = nf_minItems s"
  by (simp add: nf_minItems_def isArrayType_cong [of s' s])

lemma nf_items_cong:
  "map_of s' ''items'' = map_of s ''items'' \<Longrightarrow> map_of s' ''maxItems'' = map_of s ''maxItems''
   \<Longrightarrow> map_of s' ''minItems'' = map_of s ''minItems'' \<Longrightarrow> nf_items s' = nf_items s"
  by (simp add: nf_items_def hasMaxItems_def hasMinItems_def)

lemma nf_defs_cong: "map_of s' ''$defs'' = map_of s ''$defs'' \<Longrightarrow> nf_defs s' = nf_defs s"
  by (simp add: nf_defs_def)

lemma nf_const_cong: "map_of s' ''const'' = map_of s ''const'' \<Longrightarrow> nf_const s' = nf_const s"
  by (simp add: nf_const_def)

lemmas nf_cong = type_ok_cong nf_null_type_cong nf_unary_type_cong nf_required_cong
  nf_required_false_cong nf_additionalProperties_cong nf_id_cong nf_escaped_cong nf_removed_cong
  nf_minItems_cong nf_items_cong nf_defs_cong nf_const_cong

subsection \<open>Rules write few keys\<close>

lemma frame_remove_null_type:
  "rule_remove_null_type s f opts r = Inr s' \<Longrightarrow> k \<noteq> ''type'' \<Longrightarrow> map_of s' k = map_of s k"
  by (auto simp: rule_remove_null_type_def update_conv' split: option.splits json.splits if_splits)

lemma frame_destructure_unary_types:
  "rule_destructure_unary_types s f opts r = Inr s' \<Longrightarrow> k \<noteq> ''type'' \<Longrightarrow> map_of s' k = map_of s k"
  by (auto simp: rule_destructure_unary_types_def update_conv' split: option.splits json.splits list.splits)

lemma frame_add_empty_required:
  "rule_add_empty_required s f opts r = Inr s' \<Longrightarrow> k \<noteq> ''required'' \<Longrightarrow> map_of s' k = map_of s k"
  by (auto simp: rule_add_empty_required_def update_conv' split: if_splits)

lemma frame_required_false:
  "rule_required_false s f opts r = Inr s' \<Longrightarrow> k \<noteq> ''required'' \<Longrightarrow> map_of s' k = map_of s k"
  by (auto simp: rule_required_false_def update_conv' split: if_splits)

lemma frame_default_additionalProperties:
  "rule_default_additionalProperties s f opts r = Inr s' \<Longrightarrow> k \<noteq> ''additionalProperties''
   \<Longrightarrow> map_of s' k = map_of s k"
  by (auto simp: rule_default_additionalProperties_def update_conv' split: if_splits)

lemma frame_default_id:
  "rule_default_id u s f opts r = Inr s' \<Longrightarrow> k \<noteq> ''id'' \<Longrightarrow> map_of s' k = map_of s k"
  by (auto simp: rule_default_id_def update_conv' split: if_splits)

lemma frame_escape_jsdoc:
  "rule_escape_jsdoc s f opts r = Inr s' \<Longrightarrow> k \<noteq> ''description'' \<Longrightarrow> map_of s' k = map_of s k"
  by (auto simp: rule_escape_jsdoc_def escapeBlockComment_def update_conv'
      split: option.splits json.splits)

lemma frame_remove_max_min_items:
  "rule_remove_max_min_items s f opts r = Inr s' \<Longrightarrow> k \<noteq> ''maxItems'' \<Longrightarrow> k \<noteq> ''minItems''
   \<Longrightarrow> map_of s' k = map_of s k"
  by (auto simp: rule_remove_max_min_items_def delete_conv' split: if_splits)

lemma frame_normalise_minItems:
  "rule_normalise_minItems s f opts r = Inr s' \<Longrightarrow> k \<noteq> ''minItems'' \<Longrightarrow> map_of s' k = map_of s k"
  by (auto simp: rule_normalise_minItems_def update_conv' split: if_splits)

lemma items_to_tuple_cases:
  assumes "items_to_tuple s = Inr s'"
  obtains (same) "s' = s"
  | (tuple) it xs where "map_of s ''items'' = Some it" "truthy (Some it)" "\<not> isArray (Some it)"
      "hasMaxItems s \<or> hasMinItems s" "set xs \<subseteq> {it}"
      "Array_fill (js_or (map_of s ''maxItems'') (js_or (map_of s ''minItems'') (Some (JNum 0)))) it = Inr xs"
      "s' = AList.update ''items'' (JArr xs)
              (if \<not> hasMaxItems s then AList.update ''additionalItems'' it s else s)"
proof (cases "map_of s ''items''")
  case None
  with assms same show ?thesis by (simp add: items_to_tuple_def)
next
  case (Some it)
  show ?thesis
  proof (cases "truthy (Some it) \<and> \<not> isArray (Some it) \<and> (hasMaxItems s \<or> hasMinItems s)")
    case False
    with assms Some same show ?thesis by (auto simp add: items_to_tuple_def)
  next
    case True
    show ?thesis
    proof (cases "Array_fill (js_or (map_of s ''maxItems'') (js_or (map_of s ''minItems'') (Some (JNum 0)))) it")
      case (Inl e)
      with assms Some True show ?thesis by (simp add: items_to_tuple_def)
    next
      case (Inr xs)
      have "set xs \<subseteq> {it}"
        using Inr
        by (cases "(js_or (map_of s ''maxItems'') (js_or (map_of s ''minItems'') (Some (JNum 0))), it)"
              rule: Array_fill.cases) (auto split: if_splits)
      moreover from assms Some True Inr
      have "s' = AList.update ''items'' (JArr xs)
              (if \<not> hasMaxItems s then AList.update ''additionalItems'' it s else s)"
        by (simp add: items_to_tuple_def)
      ultimately show ?thesis using tuple Some True Inr by blast
    qed
  qed
qed

lemma frame_items_to_tuple:
  assumes "items_to_tuple s = Inr s'" and "k \<noteq> ''items''" and "k \<noteq> ''additionalItems''"
  shows "map_of s' k = map_of s k"
  using assms(1)
proof (cases rule: items_to_tuple_cases)
  case same
  then show ?thesis by simp
next
  case (tuple it xs)
  with assms(2,3) show ?thesis by (simp add: update_conv')
qed

lemma frame_items_slice:
  "k \<noteq> ''items'' \<Longrightarrow> map_of (items_slice s) k = map_of s k"
  by (auto simp: items_slice_def update_conv' split: option.splits json.splits)

lemma rule_normalize_items_cases:
  assumes "rule_normalize_items s f opts r = Inr s'"
  obtains (ignored) "ignoreMinAndMaxItems opts" "s' = s"
  | (sliced) t where "\<not> ignoreMinAndMaxItems opts" "items_to_tuple s = Inr t" "s' = items_slice t"
  using assms
  by (cases "items_to_tuple s") (auto simp: rule_normalize_items_def split: if_splits)

lemma frame_normalize_items:
  assumes "rule_normalize_items s f opts r = Inr s'" and "k \<noteq> ''items''" and "k \<noteq> ''additionalItems''"
  shows "map_of s' k = map_of s k"
  using assms(1)
proof (cases rule: rule_normalize_items_cases)
  case ignored
  then show ?thesis by simp
next
  case (sliced t)
  with assms(2,3) show ?thesis
    by (simp add: frame_items_slice frame_items_to_tuple [OF sliced(2)])
qed

lemma frame_defs_to_definitions:
  "rule_defs_to_definitions s f opts r = Inr s' \<Longrightarrow> k \<noteq> ''$defs'' \<Longrightarrow> k \<noteq> ''definitions''
   \<Longrightarrow> map_of s' k = map_of s k"
  by (auto simp: rule_defs_to_definitions_def update_conv' delete_conv' split: option.splits if_splits)

lemma frame_const_to_enum:
  "rule_const_to_enum s f opts r = Inr s' \<Longrightarrow> k \<noteq> ''const'' \<Longrightarrow> k \<noteq> ''enum''
   \<Longrightarrow> map_of s' k = map_of s k"
  by (auto simp: rule_const_to_enum_def update_conv' delete_conv' split: option.splits if_splits)

subsection \<open>One rule, one node\<close>

lemma escape_close_hd: "escape_close (d # cs) = d # tl (escape_close (d # cs))"
  by (cases cs) auto

lemma escape_close_Cons:
  assumes "escape_close ys = ys" and "\<not> (c = CHR ''*'' \<and> ys \<noteq> [] \<and> hd ys = CHR ''/'')"
  shows "escape_close (c # ys) = c # ys"
  using assms by (cases ys) auto

lemma escape_close_idem: "escape_close (escape_close d) = escape_close d"
proof (induction d rule: escape_close.induct)
  case 1
  show ?case by simp
next
  case (2 c)
  show ?case by simp
next
  case (3 c d cs)
  show ?case
  proof (cases "c = CHR ''*'' \<and> d = CHR ''/''")
    case True
    with 3 have "escape_close (escape_close cs) = escape_close cs" by simp
    then have "escape_close (CHR ''/'' # escape_close cs) = CHR ''/'' # escape_close cs"
      by (intro escape_close_Cons) simp_all
    with True show ?thesis by simp
  next
    case False
    with 3 have ih: "escape_close (escape_close (d # cs)) = escape_close (d # cs)" by simp
    have "escape_close (c # escape_close (d # cs)) = c # escape_close (d # cs)"
    proof (rule escape_close_Cons [OF ih])
      from escape_close_hd [of d cs] have "hd (escape_close (d # cs)) = d"
        by (metis list.sel(1))
      with False show "\<not> (c = CHR ''*'' \<and> escape_close (d # cs) \<noteq> [] \<and> hd (escape_close (d # cs)) = CHR ''/'')"
        by simp
    qed
    with False show ?thesis by auto
  qed
qed

lemma step_remove_null_type:
  assumes "stage 0 u fn b r s" and "rule_remove_null_type s fn opts r = Inr s'"
  shows "stage 1 u fn b r s'"
proof (cases "\<exists>es ts. map_of s ''enum'' = Some (JArr es) \<and> map_of s ''type'' = Some (JArr ts)
                \<and> JNull \<in> set es \<and> JStr ''null'' \<in> set ts")
  case True
  then obtain es ts where *: "map_of s ''enum'' = Some (JArr es)" "map_of s ''type'' = Some (JArr ts)"
    "JNull \<in> set es" "JStr ''null'' \<in> set ts" by blast
  with assms(2) have "s' = AList.update ''type'' (JArr (filter (\<lambda>t. t \<noteq> JStr ''null'') ts)) s"
    by (simp add: rule_remove_null_type_def)
  with assms(1) * show ?thesis
    by (simp add: stage_def type_ok_def nf_null_type_def update_conv' list_all_iff)
next
  case False
  with assms(2) have "s' = s"
    by (auto simp: rule_remove_null_type_def split: option.splits json.splits if_splits)
  moreover from False have "nf_null_type s"
    by (auto simp: nf_null_type_def split: option.splits json.splits)
  ultimately show ?thesis using assms(1) by (simp add: stage_def)
qed

lemma step_destructure_unary_types:
  assumes "stage 1 u fn b r s" and "rule_destructure_unary_types s fn opts r = Inr s'"
  shows "stage 2 u fn b r s'"
proof (cases "\<exists>t. map_of s ''type'' = Some (JArr [t])")
  case True
  then obtain t where *: "map_of s ''type'' = Some (JArr [t])" by blast
  with assms(2) have "s' = AList.update ''type'' t s"
    by (simp add: rule_destructure_unary_types_def)
  moreover from assms(1) * have "\<not> isArray (Some t)"
    by (simp add: stage_def type_ok_def)
  ultimately show ?thesis
    by (cases t) (simp_all add: stage_def type_ok_def nf_null_type_def nf_unary_type_def update_conv'
        split: option.splits json.splits)
next
  case False
  with assms(2) have "s' = s"
    by (auto simp: rule_destructure_unary_types_def split: option.splits json.splits list.splits)
  moreover from False have "nf_unary_type s"
    by (auto simp: nf_unary_type_def split: option.splits json.splits list.splits)
  ultimately show ?thesis using assms(1) by (simp add: stage_def)
qed

lemma step_add_empty_required:
  assumes "stage 2 u fn b r s" and "rule_add_empty_required s fn opts r = Inr s'"
  shows "stage 3 u fn b r s'"
proof -
  note fr = frame_add_empty_required [OF assms(2)]
  from assms(2) have "nf_required s'"
    by (auto simp: rule_add_empty_required_def nf_required_def update_conv' split: if_splits)
  with assms(1) show ?thesis
    by (simp add: stage_def nf_cong [of s' s] fr)
qed

lemma step_required_false:
  assumes "stage 3 u fn b r s" and "rule_required_false s fn opts r = Inr s'"
  shows "stage 4 u fn b r s'"
proof -
  note fr = frame_required_false [OF assms(2)]
  from assms(2) have "nf_required_false s'"
    by (auto simp: rule_required_false_def nf_required_false_def update_conv' split: if_splits)
  moreover from assms have "nf_required s'"
    by (auto simp: rule_required_false_def stage_def nf_required_def update_conv' split: if_splits)
  ultimately show ?thesis using assms(1)
    by (simp add: stage_def nf_cong [of s' s] fr)
qed

lemma step_default_additionalProperties:
  assumes "stage 4 u fn b r s" and "rule_default_additionalProperties s fn opts r = Inr s'"
  shows "stage 5 u fn b r s'"
proof -
  note fr = frame_default_additionalProperties [OF assms(2)]
  from assms(2) have "nf_additionalProperties s'"
    by (auto simp: rule_default_additionalProperties_def nf_additionalProperties_def update_conv'
        split: if_splits)
  with assms(1) show ?thesis
    by (simp add: stage_def nf_cong [of s' s] fr)
qed

lemma step_default_id:
  assumes "stage 5 u fn b r s" and "rule_default_id u s fn opts r = Inr s'"
  shows "stage 6 u fn b r s'"
proof -
  note fr = frame_default_id [OF assms(2)]
  from assms(2) have "nf_id u fn r s'"
    by (auto simp: rule_default_id_def nf_id_def update_conv' split: if_splits)
  with assms(1) show ?thesis
    by (simp add: stage_def nf_cong [of s' s] fr)
qed

lemma step_escape_jsdoc:
  assumes "stage 6 u fn b r s" and "rule_escape_jsdoc s fn opts r = Inr s'"
  shows "stage 7 u fn b r s'"
proof -
  note fr = frame_escape_jsdoc [OF assms(2)]
  from assms(2) have "nf_escaped s'"
    by (auto simp: rule_escape_jsdoc_def escapeBlockComment_def nf_escaped_def update_conv'
        escape_close_idem split: option.splits json.splits)
  with assms(1) show ?thesis
    by (simp add: stage_def nf_cong [of s' s] fr)
qed

lemma step_remove_max_min_items:
  assumes "stage 7 u fn (ignoreMinAndMaxItems opts) r s"
    and "rule_remove_max_min_items s fn opts r = Inr s'"
  shows "stage 8 u fn (ignoreMinAndMaxItems opts) r s'"
proof -
  note fr = frame_remove_max_min_items [OF assms(2)]
  from assms(2) have "ignoreMinAndMaxItems opts \<Longrightarrow> nf_removed s'"
    by (auto simp: rule_remove_max_min_items_def nf_removed_def delete_conv')
  with assms(1) show ?thesis
    by (simp add: stage_def nf_cong [of s' s] fr)
qed

lemma step_normalise_minItems:
  assumes "stage 8 u fn (ignoreMinAndMaxItems opts) r s"
    and "rule_normalise_minItems s fn opts r = Inr s'"
  shows "stage 9 u fn (ignoreMinAndMaxItems opts) r s'"
proof (cases "ignoreMinAndMaxItems opts")
  case True
  with assms(2) have "s' = s" by (simp add: rule_normalise_minItems_def)
  with assms(1) True show ?thesis by (simp add: stage_def)
next
  case False
  note fr = frame_normalise_minItems [OF assms(2)]
  have "isArrayType s' = isArrayType s"
    by (simp add: isArrayType_cong [of s' s] fr)
  with assms(2) False have "nf_minItems s'"
    by (auto simp: rule_normalise_minItems_def nf_minItems_def update_conv'
        split: if_splits option.splits json.splits)
  with assms(1) False show ?thesis
    by (simp add: stage_def nf_cong [of s' s] fr)
qed


lemma hasMaxItems_cong: "map_of s' ''maxItems'' = map_of s ''maxItems'' \<Longrightarrow> hasMaxItems s' = hasMaxItems s"
  by (simp add: hasMaxItems_def)

lemma hasMinItems_cong: "map_of s' ''minItems'' = map_of s ''minItems'' \<Longrightarrow> hasMinItems s' = hasMinItems s"
  by (simp add: hasMinItems_def)

lemma items_to_tuple_guard:
  assumes "items_to_tuple s = Inr t"
  shows "\<not> (truthy (map_of t ''items'') \<and> \<not> isArray (map_of t ''items'')
            \<and> (hasMaxItems t \<or> hasMinItems t))"
proof (cases "map_of s ''items''")
  case None
  with assms show ?thesis by (simp add: items_to_tuple_def)
next
  case (Some it)
  show ?thesis
  proof (cases "truthy (Some it) \<and> \<not> isArray (Some it) \<and> (hasMaxItems s \<or> hasMinItems s)")
    case False
    with assms Some have "t = s" by (auto simp: items_to_tuple_def)
    with False Some show ?thesis by simp
  next
    case True
    with assms Some obtain xs s0 where "t = AList.update ''items'' (JArr xs) s0"
      by (auto simp: items_to_tuple_def split: sum.splits)
    then show ?thesis by (simp add: update_conv')
  qed
qed

lemma items_to_tuple_present:
  assumes "items_to_tuple s = Inr t"
  shows "map_of t ''items'' = None \<longleftrightarrow> map_of s ''items'' = None"
  using assms
proof (cases rule: items_to_tuple_cases)
  case same
  then show ?thesis by simp
next
  case (tuple it xs)
  then show ?thesis by (simp add: update_conv')
qed

lemma items_slice_present: "map_of (items_slice t) ''items'' = None \<longleftrightarrow> map_of t ''items'' = None"
  by (auto simp: items_slice_def update_conv' split: option.splits json.splits)

lemma nf_items_slice:
  assumes "\<not> (truthy (map_of t ''items'') \<and> \<not> isArray (map_of t ''items'')
            \<and> (hasMaxItems t \<or> hasMinItems t))"
  shows "nf_items (items_slice t)"
proof (cases "\<exists>xs n. map_of t ''items'' = Some (JArr xs) \<and> map_of t ''maxItems'' = Some (JNum n)
                \<and> 0 \<le> n \<and> n < int (length xs)")
  case True
  then obtain xs n where *: "map_of t ''items'' = Some (JArr xs)" "map_of t ''maxItems'' = Some (JNum n)"
    "0 \<le> n" "n < int (length xs)" by blast
  then have "items_slice t = AList.update ''items'' (JArr (take (nat n) xs)) t"
    by (simp add: items_slice_def)
  with * show ?thesis
    by (simp add: nf_items_def update_conv')
next
  case False
  then have "items_slice t = t"
    by (auto simp: items_slice_def split: option.splits json.splits)
  with False assms show ?thesis
    by (auto simp: nf_items_def split: option.splits json.splits)
qed

lemma step_normalize_items:
  assumes "stage 9 u fn (ignoreMinAndMaxItems opts) r s"
    and "rule_normalize_items s fn opts r = Inr s'"
  shows "stage 10 u fn (ignoreMinAndMaxItems opts) r s'"
  using assms(2)
proof (cases rule: rule_normalize_items_cases)
  case ignored
  with assms(1) show ?thesis by (simp add: stage_def)
next
  case (sliced t)
  note fr = frame_normalize_items [OF assms(2)]
  from sliced have "nf_items s'"
    by (simp add: nf_items_slice items_to_tuple_guard)
  moreover have "nf_minItems s'"
  proof -
    from sliced have "map_of s' ''items'' = None \<longleftrightarrow> map_of s ''items'' = None"
      by (simp add: items_slice_present items_to_tuple_present)
    then have "isArrayType s' = isArrayType s"
      by (simp add: isArrayType_def hasType_cong [of s' s] fr)
    with assms(1) sliced(1) show ?thesis
      by (simp add: stage_def nf_minItems_def fr)
  qed
  ultimately show ?thesis using assms(1) sliced(1)
    by (simp add: stage_def nf_cong [of s' s] fr)
qed

lemma step_defs_to_definitions:
  assumes "stage 10 u fn b r s" and "rule_defs_to_definitions s fn opts r = Inr s'"
  shows "stage 11 u fn b r s'"
proof -
  note fr = frame_defs_to_definitions [OF assms(2)]
  from assms(2) have "nf_defs s'"
    by (auto simp: rule_defs_to_definitions_def nf_defs_def update_conv' delete_conv'
        split: option.splits if_splits)
  with assms(1) show ?thesis
    by (simp add: stage_def nf_cong [of s' s] fr)
qed

lemma truthy_not_null: "truthy (Some c) \<Longrightarrow> c \<noteq> JNull"
  by auto

lemma step_const_to_enum:
  assumes "stage 11 u fn b r s" and "rule_const_to_enum s fn opts r = Inr s'"
  shows "stage 12 u fn b r s'"
proof -
  note fr = frame_const_to_enum [OF assms(2)]
  from assms(2) have "nf_const s'"
    by (auto simp: rule_const_to_enum_def nf_const_def update_conv' delete_conv'
        split: option.splits if_splits)
  moreover have "nf_null_type s'"
  proof (cases "truthy (map_of s ''const'')")
    case True
    then obtain c where c: "map_of s ''const'' = Some c" "truthy (Some c)"
      by (cases "map_of s ''const''") auto
    with assms(2) have "s' = AList.delete ''const'' (AList.update ''enum'' (JArr [c]) s)"
      by (simp add: rule_const_to_enum_def)
    with truthy_not_null [OF c(2)] show ?thesis
      by (auto simp: nf_null_type_def update_conv' delete_conv' split: option.splits json.splits)
  next
    case False
    with assms(2) have "s' = s"
      by (auto simp: rule_const_to_enum_def split: option.splits)
    with assms(1) show ?thesis by (simp add: stage_def)
  qed
  ultimately show ?thesis using assms(1)
    by (simp add: stage_def nf_cong [of s' s] fr)
qed

subsection \<open>No rule makes a new child\<close>

lemma children_update:
  "set (children (AList.update k v s)) \<subseteq> set (children s) \<union> set (children_of_key (k, v))"
  by (induction s) (auto simp: children_def)

lemma children_delete: "set (children (AList.delete k s)) \<subseteq> set (children s)"
  by (induction s) (auto simp: children_def)

lemma children_of_key_in:
  assumes "map_of s k = Some v"
  shows "set (children_of_key (k, v)) \<subseteq> set (children s)"
proof -
  from assms have "(k, v) \<in> set s" by (rule map_of_SomeD)
  then show ?thesis by (auto simp: children_def)
qed

lemma children_update_leaf:
  assumes "children_of_key (k, v) = []"
  shows "set (children (AList.update k v s)) \<subseteq> set (children s)"
  using children_update [of k v s] assms by simp

lemma leaf_keys [simp]:
  "children_of_key (''type'', v) = []"
  "children_of_key (''required'', v) = []"
  "children_of_key (''id'', v) = []"
  "children_of_key (''description'', v) = []"
  "children_of_key (''minItems'', v) = []"
  "children_of_key (''enum'', v) = []"
  "children_of_key (''additionalProperties'', JBool b) = []"
  by (simp_all add: children_of_key_def key_kind_def nodes_of_def)

lemma children_remove_null_type:
  assumes "rule_remove_null_type s f opts r = Inr s'"
  shows "set (children s') \<subseteq> set (children s)"
proof -
  from assms have "s' = s \<or> (\<exists>v. s' = AList.update ''type'' v s)"
    by (auto simp: rule_remove_null_type_def split: option.splits json.splits if_splits)
  then show ?thesis by (auto dest: subsetD [OF children_update_leaf, rotated])
qed

lemma children_destructure_unary_types:
  assumes "rule_destructure_unary_types s f opts r = Inr s'"
  shows "set (children s') \<subseteq> set (children s)"
proof -
  from assms have "s' = s \<or> (\<exists>v. s' = AList.update ''type'' v s)"
    by (auto simp: rule_destructure_unary_types_def split: option.splits json.splits list.splits)
  then show ?thesis by (auto dest: subsetD [OF children_update_leaf, rotated])
qed

lemma children_add_empty_required:
  assumes "rule_add_empty_required s f opts r = Inr s'"
  shows "set (children s') \<subseteq> set (children s)"
proof -
  from assms have "s' = s \<or> (\<exists>v. s' = AList.update ''required'' v s)"
    by (auto simp: rule_add_empty_required_def split: if_splits)
  then show ?thesis by (auto dest: subsetD [OF children_update_leaf, rotated])
qed

lemma children_required_false:
  assumes "rule_required_false s f opts r = Inr s'"
  shows "set (children s') \<subseteq> set (children s)"
proof -
  from assms have "s' = s \<or> (\<exists>v. s' = AList.update ''required'' v s)"
    by (auto simp: rule_required_false_def split: if_splits)
  then show ?thesis by (auto dest: subsetD [OF children_update_leaf, rotated])
qed

lemma children_default_additionalProperties:
  assumes "rule_default_additionalProperties s f opts r = Inr s'"
  shows "set (children s') \<subseteq> set (children s)"
proof -
  from assms have "s' = s \<or> s' = AList.update ''additionalProperties'' (JBool True) s"
    by (auto simp: rule_default_additionalProperties_def split: if_splits)
  then show ?thesis by (auto dest: subsetD [OF children_update_leaf, rotated])
qed

lemma children_default_id:
  assumes "rule_default_id u s f opts r = Inr s'"
  shows "set (children s') \<subseteq> set (children s)"
proof -
  from assms have "s' = s \<or> (\<exists>v. s' = AList.update ''id'' v s)"
    by (auto simp: rule_default_id_def split: if_splits)
  then show ?thesis by (auto dest: subsetD [OF children_update_leaf, rotated])
qed

lemma children_escape_jsdoc:
  assumes "rule_escape_jsdoc s f opts r = Inr s'"
  shows "set (children s') \<subseteq> set (children s)"
proof -
  from assms have "s' = s \<or> (\<exists>v. s' = AList.update ''description'' v s)"
    by (auto simp: rule_escape_jsdoc_def escapeBlockComment_def split: option.splits json.splits)
  then show ?thesis by (auto dest: subsetD [OF children_update_leaf, rotated])
qed

lemma children_remove_max_min_items:
  assumes "rule_remove_max_min_items s f opts r = Inr s'"
  shows "set (children s') \<subseteq> set (children s)"
proof -
  from assms have "s' = s \<or> s' = AList.delete ''minItems'' (AList.delete ''maxItems'' s)"
    by (auto simp: rule_remove_max_min_items_def split: if_splits)
  then show ?thesis
    using children_delete [of "''minItems''" "AList.delete ''maxItems'' s"]
      children_delete [of "''maxItems''" s]
    by auto
qed

lemma children_normalise_minItems:
  assumes "rule_normalise_minItems s f opts r = Inr s'"
  shows "set (children s') \<subseteq> set (children s)"
proof -
  from assms have "s' = s \<or> (\<exists>v. s' = AList.update ''minItems'' v s)"
    by (auto simp: rule_normalise_minItems_def split: if_splits)
  then show ?thesis by (auto dest: subsetD [OF children_update_leaf, rotated])
qed

lemma nodes_of_subset: "set xs \<subseteq> set ys \<Longrightarrow> set (nodes_of xs) \<subseteq> set (nodes_of ys)"
  by (auto simp: nodes_of_def)

lemma children_items_to_tuple:
  assumes "items_to_tuple s = Inr t"
  shows "set (children t) \<subseteq> set (children s)"
  using assms
proof (cases rule: items_to_tuple_cases)
  case same
  then show ?thesis by simp
next
  case (tuple it xs)
  have it: "set (nodes_of [it]) \<subseteq> set (children s)"
    using children_of_key_in [OF tuple(1)] tuple(3)
    by (cases it) (simp_all add: children_of_key_def key_kind_def)
  from tuple(5) have "set (nodes_of xs) \<subseteq> set (nodes_of [it])"
    by (intro nodes_of_subset) simp
  with it have items: "set (children_of_key (''items'', JArr xs)) \<subseteq> set (children s)"
    by (simp add: children_of_key_def key_kind_def)
  from it have add: "set (children_of_key (''additionalItems'', it)) \<subseteq> set (children s)"
    by (simp add: children_of_key_def key_kind_def)
  let ?s0 = "if \<not> hasMaxItems s then AList.update ''additionalItems'' it s else s"
  from add children_update [of "''additionalItems''" it s]
  have "set (children ?s0) \<subseteq> set (children s)" by auto
  with items children_update [of "''items''" "JArr xs" ?s0] tuple(7)
  show ?thesis by auto
qed

lemma children_items_slice: "set (children (items_slice t)) \<subseteq> set (children t)"
proof (cases "\<exists>xs n. map_of t ''items'' = Some (JArr xs) \<and> map_of t ''maxItems'' = Some (JNum n)
                \<and> 0 \<le> n \<and> n < int (length xs)")
  case True
  then obtain xs n where *: "map_of t ''items'' = Some (JArr xs)"
    and eq: "items_slice t = AList.update ''items'' (JArr (take (nat n) xs)) t"
    by (auto simp: items_slice_def)
  have "set (nodes_of (take (nat n) xs)) \<subseteq> set (nodes_of xs)"
    by (intro nodes_of_subset) (rule set_take_subset)
  with children_of_key_in [OF *]
  have "set (children_of_key (''items'', JArr (take (nat n) xs))) \<subseteq> set (children t)"
    by (simp add: children_of_key_def key_kind_def)
  with children_update [of "''items''" "JArr (take (nat n) xs)" t] eq show ?thesis by auto
next
  case False
  then have "items_slice t = t"
    by (auto simp: items_slice_def split: option.splits json.splits)
  then show ?thesis by simp
qed

lemma children_normalize_items:
  assumes "rule_normalize_items s f opts r = Inr s'"
  shows "set (children s') \<subseteq> set (children s)"
  using assms
proof (cases rule: rule_normalize_items_cases)
  case ignored
  then show ?thesis by simp
next
  case (sliced t)
  with children_items_to_tuple [of s t] children_items_slice [of t] show ?thesis by auto
qed

lemma children_defs_to_definitions:
  assumes "rule_defs_to_definitions s f opts r = Inr s'"
  shows "set (children s') \<subseteq> set (children s)"
proof (cases "truthy (map_of s ''$defs'')")
  case True
  then obtain d where d: "map_of s ''$defs'' = Some d" by (cases "map_of s ''$defs''") auto
  with True assms have eq: "s' = AList.delete ''$defs'' (AList.update ''definitions'' d s)"
    by (simp add: rule_defs_to_definitions_def)
  have "children_of_key (''definitions'', d) = children_of_key (''$defs'', d)"
    by (simp add: children_of_key_def key_kind_def)
  with children_of_key_in [OF d]
  have "set (children_of_key (''definitions'', d)) \<subseteq> set (children s)" by simp
  with children_update [of "''definitions''" d s]
    children_delete [of "''$defs''" "AList.update ''definitions'' d s"] eq
  show ?thesis by auto
next
  case False
  with assms have "s' = s"
    by (auto simp: rule_defs_to_definitions_def split: option.splits)
  then show ?thesis by simp
qed

lemma children_const_to_enum:
  assumes "rule_const_to_enum s f opts r = Inr s'"
  shows "set (children s') \<subseteq> set (children s)"
proof -
  from assms have "s' = s \<or> (\<exists>v. s' = AList.delete ''const'' (AList.update ''enum'' v s))"
    by (auto simp: rule_const_to_enum_def split: option.splits if_splits)
  then show ?thesis
  proof
    assume "s' = s"
    then show ?thesis by simp
  next
    assume "\<exists>v. s' = AList.delete ''const'' (AList.update ''enum'' v s)"
    then obtain v where "s' = AList.delete ''const'' (AList.update ''enum'' v s)" ..
    with children_delete [of "''const''" "AList.update ''enum'' v s"]
      children_update_leaf [of "''enum''" v s]
    show ?thesis by auto
  qed
qed

subsection \<open>A rule changes nothing on its normal forms\<close>

lemma fix_remove_null_type: "nf_null_type s \<Longrightarrow> rule_remove_null_type s f opts r = Inr s"
  by (auto simp: nf_null_type_def rule_remove_null_type_def split: option.splits json.splits)

lemma fix_destructure_unary_types: "nf_unary_type s \<Longrightarrow> rule_destructure_unary_types s f opts r = Inr s"
  by (auto simp: nf_unary_type_def rule_destructure_unary_types_def
      split: option.splits json.splits list.splits)

lemma fix_add_empty_required: "nf_required s \<Longrightarrow> rule_add_empty_required s f opts r = Inr s"
  by (auto simp: nf_required_def rule_add_empty_required_def)

lemma fix_required_false: "nf_required_false s \<Longrightarrow> rule_required_false s f opts r = Inr s"
  by (auto simp: nf_required_false_def rule_required_false_def)

lemma fix_default_additionalProperties:
  "nf_additionalProperties s \<Longrightarrow> rule_default_additionalProperties s f opts r = Inr s"
  by (auto simp: nf_additionalProperties_def rule_default_additionalProperties_def)

lemma fix_default_id: "nf_id u f r s \<Longrightarrow> rule_default_id u s f opts r = Inr s"
  by (auto simp: nf_id_def rule_default_id_def update_triv)

lemma fix_escape_jsdoc: "nf_escaped s \<Longrightarrow> rule_escape_jsdoc s f opts r = Inr s"
  by (auto simp: nf_escaped_def rule_escape_jsdoc_def escapeBlockComment_def update_triv
      split: option.splits json.splits)

lemma delete_absent: "map_of s k = None \<Longrightarrow> AList.delete k s = s"
  by (induction s) (auto split: if_splits)

lemma fix_remove_max_min_items:
  "(ignoreMinAndMaxItems opts \<Longrightarrow> nf_removed s) \<Longrightarrow> rule_remove_max_min_items s f opts r = Inr s"
  by (auto simp: nf_removed_def rule_remove_max_min_items_def delete_absent)

lemma fix_normalise_minItems:
  "(\<not> ignoreMinAndMaxItems opts \<Longrightarrow> nf_minItems s) \<Longrightarrow> rule_normalise_minItems s f opts r = Inr s"
  by (auto simp: nf_minItems_def rule_normalise_minItems_def update_triv
      split: option.splits json.splits)

lemma fix_normalize_items:
  assumes "\<not> ignoreMinAndMaxItems opts \<Longrightarrow> nf_items s"
  shows "rule_normalize_items s f opts r = Inr s"
proof (cases "ignoreMinAndMaxItems opts")
  case True
  then show ?thesis by (simp add: rule_normalize_items_def)
next
  case False
  with assms have nf: "nf_items s" by simp
  then have "items_to_tuple s = Inr s"
    by (cases "map_of s ''items''") (auto simp: nf_items_def items_to_tuple_def)
  moreover from nf have "items_slice s = s"
    by (auto simp: nf_items_def items_slice_def split: option.splits json.splits)
  ultimately show ?thesis using False by (simp add: rule_normalize_items_def)
qed

lemma fix_defs_to_definitions: "nf_defs s \<Longrightarrow> rule_defs_to_definitions s f opts r = Inr s"
  by (auto simp: nf_defs_def rule_defs_to_definitions_def split: option.splits)

lemma fix_const_to_enum: "nf_const s \<Longrightarrow> rule_const_to_enum s f opts r = Inr s"
  by (auto simp: nf_const_def rule_const_to_enum_def split: option.splits)

section \<open>Normalizing twice\<close>

text \<open>The callback that \<open>apply_rule\<close> hands to the traversal.\<close>

lemma truncate_ignore [simp]:
  "ignoreMinAndMaxItems (Options.truncate options) = ignoreMinAndMaxItems options"
  by (simp add: Options.defs)

lemma apply_rule_stage:
  assumes step: "\<And>x isRoot x'. stage j u f (ignoreMinAndMaxItems options) isRoot x
             \<Longrightarrow> rule x f (Options.truncate options) isRoot = Inr x'
             \<Longrightarrow> stage j' u f (ignoreMinAndMaxItems options) isRoot x'"
    and sub: "\<And>x isRoot x'. rule x f (Options.truncate options) isRoot = Inr x'
             \<Longrightarrow> set (children x') \<subseteq> set (children x)"
    and run: "apply_rule n f options rule key s = Some (Inr s')"
    and before: "all_nodes (stage j u f (ignoreMinAndMaxItems options)) True s"
  shows "all_nodes (stage j' u f (ignoreMinAndMaxItems options)) True s'"
proof (rule traverse_all_nodes [where I = "stage j u f (ignoreMinAndMaxItems options)"
      and cb = "\<lambda>schema isRoot. rule schema f (Options.truncate options) isRoot"])
  show "traverse n s (\<lambda>schema isRoot. rule schema f (Options.truncate options) isRoot) True
      = Some (Inr s')"
    using run by (simp add: apply_rule_def)
  show "all_nodes (stage j u f (ignoreMinAndMaxItems options)) True s" by (rule before)
next
  fix x isRoot x'
  assume "stage j u f (ignoreMinAndMaxItems options) isRoot x"
    and "rule x f (Options.truncate options) isRoot = Inr x'"
  then show "stage j' u f (ignoreMinAndMaxItems options) isRoot x'
      \<and> set (children x') \<subseteq> set (children x)"
    using step sub by blast
next
  fix isRoot and x y :: schema
  assume "shallow x = shallow y" and "stage j' u f (ignoreMinAndMaxItems options) isRoot x"
  then show "stage j' u f (ignoreMinAndMaxItems options) isRoot y"
    by (rule stage_shallow)
qed

lemma apply_rule_fixpoint:
  assumes fixp: "\<And>x isRoot. stage 12 u f (ignoreMinAndMaxItems options) isRoot x
             \<Longrightarrow> rule x f (Options.truncate options) isRoot = Inr x"
    and last: "apply_rule n f options rule0 key0 s = Some (Inr s')"
    and normal: "all_nodes (stage 12 u f (ignoreMinAndMaxItems options)) True s'"
  shows "apply_rule n f options rule key s' = Some (Inr s')"
  unfolding apply_rule_def
proof (rule traverse_fixpoint [where J = "stage 12 u f (ignoreMinAndMaxItems options)"
      and cb = "\<lambda>schema isRoot. rule0 schema f (Options.truncate options) isRoot" and s = s])
  show "traverse n s (\<lambda>schema isRoot. rule0 schema f (Options.truncate options) isRoot) True
      = Some (Inr s')"
    using last by (simp add: apply_rule_def)
  show "all_nodes (stage 12 u f (ignoreMinAndMaxItems options)) True s'" by (rule normal)
  show "\<And>x isRoot. stage 12 u f (ignoreMinAndMaxItems options) isRoot x
      \<Longrightarrow> rule x f (Options.truncate options) isRoot = Inr x"
    by (rule fixp)
qed

lemma stage12_fix:
  assumes "stage 12 u f (ignoreMinAndMaxItems opts) r s"
  shows "rule_remove_null_type s f opts r = Inr s"
    and "rule_destructure_unary_types s f opts r = Inr s"
    and "rule_add_empty_required s f opts r = Inr s"
    and "rule_required_false s f opts r = Inr s"
    and "rule_default_additionalProperties s f opts r = Inr s"
    and "rule_default_id u s f opts r = Inr s"
    and "rule_escape_jsdoc s f opts r = Inr s"
    and "rule_remove_max_min_items s f opts r = Inr s"
    and "rule_normalise_minItems s f opts r = Inr s"
    and "rule_normalize_items s f opts r = Inr s"
    and "rule_defs_to_definitions s f opts r = Inr s"
    and "rule_const_to_enum s f opts r = Inr s"
proof -
  from assms have nf: "nf_null_type s" "nf_unary_type s" "nf_required s" "nf_required_false s"
    "nf_additionalProperties s" "nf_id u f r s" "nf_escaped s" "nf_defs s" "nf_const s"
    and ig: "ignoreMinAndMaxItems opts \<Longrightarrow> nf_removed s"
    and ni: "\<not> ignoreMinAndMaxItems opts \<Longrightarrow> nf_minItems s"
      "\<not> ignoreMinAndMaxItems opts \<Longrightarrow> nf_items s"
    by (simp_all add: stage_def split: if_splits)
  show "rule_remove_null_type s f opts r = Inr s" by (rule fix_remove_null_type) (rule nf)
  show "rule_destructure_unary_types s f opts r = Inr s" by (rule fix_destructure_unary_types) (rule nf)
  show "rule_add_empty_required s f opts r = Inr s" by (rule fix_add_empty_required) (rule nf)
  show "rule_required_false s f opts r = Inr s" by (rule fix_required_false) (rule nf)
  show "rule_default_additionalProperties s f opts r = Inr s"
    by (rule fix_default_additionalProperties) (rule nf)
  show "rule_default_id u s f opts r = Inr s" by (rule fix_default_id) (rule nf)
  show "rule_escape_jsdoc s f opts r = Inr s" by (rule fix_escape_jsdoc) (rule nf)
  show "rule_remove_max_min_items s f opts r = Inr s" by (rule fix_remove_max_min_items) (rule ig)
  show "rule_normalise_minItems s f opts r = Inr s" by (rule fix_normalise_minItems) (rule ni)
  show "rule_normalize_items s f opts r = Inr s" by (rule fix_normalize_items) (rule ni)
  show "rule_defs_to_definitions s f opts r = Inr s" by (rule fix_defs_to_definitions) (rule nf)
  show "rule_const_to_enum s f opts r = Inr s" by (rule fix_const_to_enum) (rule nf)
qed

text \<open>The built-in rules, one traversal after the other.\<close>

lemma builtin_rules_normal:
  assumes run: "forEach (apply_rule n f options) (rules u) s = Some (Inr s')"
    and ok: "all_nodes (\<lambda>isRoot. type_ok) True s"
  shows "all_nodes (stage 12 u f (ignoreMinAndMaxItems options)) True s'
       \<and> (\<exists>t. apply_rule n f options rule_const_to_enum ''Transform const to singleton enum'' t
                = Some (Inr s'))"
proof -
  let ?b = "ignoreMinAndMaxItems options"
  let ?ap = "apply_rule n f options"
  from run obtain s1 s2 s3 s4 s5 s6 s7 s8 s9 s10 s11 where
    r1: "?ap rule_remove_null_type ''Remove `type=[\"null\"]` if `enum=[null]`'' s = Some (Inr s1)"
    and r2: "?ap rule_destructure_unary_types ''Destructure unary types'' s1 = Some (Inr s2)"
    and r3: "?ap rule_add_empty_required ''Add empty `required` property if none is defined'' s2
              = Some (Inr s3)"
    and r4: "?ap rule_required_false ''Transform `required`=false to `required`=[]'' s3 = Some (Inr s4)"
    and r5: "?ap rule_default_additionalProperties ''Default additionalProperties to true'' s4
              = Some (Inr s5)"
    and r6: "?ap (rule_default_id u) ''Default top level `id`'' s5 = Some (Inr s6)"
    and r7: "?ap rule_escape_jsdoc ''Escape closing JSDoc Comment'' s6 = Some (Inr s7)"
    and r8: "?ap rule_remove_max_min_items ''Optionally remove maxItems and minItems'' s7 = Some (Inr s8)"
    and r9: "?ap rule_normalise_minItems ''Normalise schema.minItems'' s8 = Some (Inr s9)"
    and r10: "?ap rule_normalize_items ''Normalize schema.items'' s9 = Some (Inr s10)"
    and r11: "?ap rule_defs_to_definitions ''Transform $defs to definitions'' s10 = Some (Inr s11)"
    and r12: "?ap rule_const_to_enum ''Transform const to singleton enum'' s11 = Some (Inr s')"
    by (auto simp: rules_def and_then_Inr Return_def)
  have "stage 0 u f ?b = ((\<lambda>isRoot. type_ok) :: bool \<Rightarrow> schema \<Rightarrow> bool)"
    by (rule ext)+ (simp add: stage_def)
  with ok have a0: "all_nodes (stage 0 u f ?b) True s" by simp
  note s8 = step_remove_max_min_items [where opts = "Options.truncate options", unfolded truncate_ignore]
  note s9 = step_normalise_minItems [where opts = "Options.truncate options", unfolded truncate_ignore]
  note s10 = step_normalize_items [where opts = "Options.truncate options", unfolded truncate_ignore]
  have a1: "all_nodes (stage 1 u f ?b) True s1"
    by (rule apply_rule_stage [OF step_remove_null_type children_remove_null_type r1 a0])
  have a2: "all_nodes (stage 2 u f ?b) True s2"
    by (rule apply_rule_stage [OF step_destructure_unary_types children_destructure_unary_types r2 a1])
  have a3: "all_nodes (stage 3 u f ?b) True s3"
    by (rule apply_rule_stage [OF step_add_empty_required children_add_empty_required r3 a2])
  have a4: "all_nodes (stage 4 u f ?b) True s4"
    by (rule apply_rule_stage [OF step_required_false children_required_false r4 a3])
  have a5: "all_nodes (stage 5 u f ?b) True s5"
    by (rule apply_rule_stage
        [OF step_default_additionalProperties children_default_additionalProperties r5 a4])
  have a6: "all_nodes (stage 6 u f ?b) True s6"
    by (rule apply_rule_stage [OF step_default_id children_default_id r6 a5])
  have a7: "all_nodes (stage 7 u f ?b) True s7"
    by (rule apply_rule_stage [OF step_escape_jsdoc children_escape_jsdoc r7 a6])
  have a8: "all_nodes (stage 8 u f ?b) True s8"
    by (rule apply_rule_stage [OF s8 children_remove_max_min_items r8 a7])
  have a9: "all_nodes (stage 9 u f ?b) True s9"
    by (rule apply_rule_stage [OF s9 children_normalise_minItems r9 a8])
  have a10: "all_nodes (stage 10 u f ?b) True s10"
    by (rule apply_rule_stage [OF s10 children_normalize_items r10 a9])
  have a11: "all_nodes (stage 11 u f ?b) True s11"
    by (rule apply_rule_stage [OF step_defs_to_definitions children_defs_to_definitions r11 a10])
  have a12: "all_nodes (stage 12 u f ?b) True s'"
    by (rule apply_rule_stage [OF step_const_to_enum children_const_to_enum r12 a11])
  with r12 show ?thesis by blast
qed

lemma normal_builtin_rules:
  assumes last: "apply_rule n f options rule0 key0 t = Some (Inr s)"
    and normal: "all_nodes (stage 12 u f (ignoreMinAndMaxItems options)) True s"
  shows "forEach (apply_rule n f options) (rules u) s = Some (Inr s)"
proof -
  note fp = apply_rule_fixpoint [OF _ last normal]
  have "apply_rule n f options rule_remove_null_type k1 s = Some (Inr s)"
    and "apply_rule n f options rule_destructure_unary_types k2 s = Some (Inr s)"
    and "apply_rule n f options rule_add_empty_required k3 s = Some (Inr s)"
    and "apply_rule n f options rule_required_false k4 s = Some (Inr s)"
    and "apply_rule n f options rule_default_additionalProperties k5 s = Some (Inr s)"
    and "apply_rule n f options (rule_default_id u) k6 s = Some (Inr s)"
    and "apply_rule n f options rule_escape_jsdoc k7 s = Some (Inr s)"
    and "apply_rule n f options rule_remove_max_min_items k8 s = Some (Inr s)"
    and "apply_rule n f options rule_normalise_minItems k9 s = Some (Inr s)"
    and "apply_rule n f options rule_normalize_items k10 s = Some (Inr s)"
    and "apply_rule n f options rule_defs_to_definitions k11 s = Some (Inr s)"
    and "apply_rule n f options rule_const_to_enum k12 s = Some (Inr s)"
    for k1 k2 k3 k4 k5 k6 k7 k8 k9 k10 k11 k12
    by (rule fp, erule stage12_fix [where opts = "Options.truncate options", unfolded truncate_ignore])+
  then show ?thesis
    by (simp add: rules_def Return_def)
qed


text \<open>
  C1, as stated: for every schema, file name and options, normalizing the result of
  normalize gives that result again. It fails when the options bring a rule of the
  caller's that is not idempotent (here: a rule that appends an exclamation mark to the
  title); and with the built-in rules alone it fails on a type array whose entry is an
  array, \<^verbatim>\<open>{"type": [["string"]]}\<close>: each run takes one level of brackets off.
\<close>

theorem C1_counterexample:
  "\<not> (\<forall>u n (schema :: schema) fileName options normalized.
         normalize u n schema fileName options = Some (Inr normalized)
         \<longrightarrow> normalize u n normalized fileName options = Some (Inr normalized))
   \<and> \<not> (\<forall>u n (schema :: schema) fileName options normalized.
         normalizerRules options = None
         \<and> normalize u n schema fileName options = Some (Inr normalized)
         \<longrightarrow> normalize u n normalized fileName options = Some (Inr normalized))"
proof (intro conjI notI)
  let ?u = "\<lparr>justName = (\<lambda>f. f), toSafeString = (\<lambda>f. f)\<rparr>"
  let ?shout = "(\<lambda>schema fileName options isRoot.
      case map_of schema ''title'' of
        Some (JStr t) \<Rightarrow> Inr (AList.update ''title'' (JStr (t @ ''!'')) schema)
      | _ \<Rightarrow> Inr schema) :: tree Rule"
  let ?o = "\<lparr>ignoreMinAndMaxItems = False, normalizerRules = Some [(''shout'', ?shout)]\<rparr>"
  assume "\<forall>u n (schema :: schema) fileName options normalized.
         normalize u n schema fileName options = Some (Inr normalized)
         \<longrightarrow> normalize u n normalized fileName options = Some (Inr normalized)"
  then have "normalize ?u (Suc 0) [(''title'', JStr ''a'')] ''f'' ?o
        = Some (Inr [(''title'', JStr ''a!''), (''id'', JStr ''f'')])
      \<longrightarrow> normalize ?u (Suc 0) [(''title'', JStr ''a!''), (''id'', JStr ''f'')] ''f'' ?o
        = Some (Inr [(''title'', JStr ''a!''), (''id'', JStr ''f'')])"
    by blast
  then show False
    by (simp add: result_simps rule_defs)
next
  let ?u = "\<lparr>justName = (\<lambda>f. f), toSafeString = (\<lambda>f. f)\<rparr>"
  let ?o = "\<lparr>ignoreMinAndMaxItems = False, normalizerRules = None\<rparr> :: tree Rule NormalizerOptions"
  assume "\<forall>u n (schema :: schema) fileName options normalized.
         normalizerRules options = None
         \<and> normalize u n schema fileName options = Some (Inr normalized)
         \<longrightarrow> normalize u n normalized fileName options = Some (Inr normalized)"
  then have "normalizerRules ?o = None
      \<and> normalize ?u (Suc 0) [(''type'', JArr [JArr [JStr ''string'']])] ''f'' ?o
        = Some (Inr [(''type'', JArr [JStr ''string'']), (''id'', JStr ''f'')])
      \<longrightarrow> normalize ?u (Suc 0) [(''type'', JArr [JStr ''string'']), (''id'', JStr ''f'')] ''f'' ?o
        = Some (Inr [(''type'', JArr [JStr ''string'']), (''id'', JStr ''f'')])"
    by blast
  then show False
    by (simp add: result_simps rule_defs)
qed

text \<open>
  C1, amended: for every schema in which no entry of a type array is itself an array
  (type names are strings), every file name and all options without rules of the
  caller's: when normalize returns, normalizing what it returned returns the same schema
  again.
\<close>

theorem C1_normalize_idempotent:
  assumes "normalizerRules options = None \<or> normalizerRules options = Some []"
    and "all_nodes (\<lambda>isRoot. type_ok) True schema"
    and "normalize u n schema fileName options = Some (Inr normalized)"
  shows "normalize u n normalized fileName options = Some (Inr normalized)"
proof -
  from assms(1,3) have run: "forEach (apply_rule n fileName options) (rules u) schema
      = Some (Inr normalized)"
    by (auto simp: normalize_def cloneDeep_def and_then_Inr Return_def)
  from builtin_rules_normal [OF run assms(2)] obtain t where
    normal: "all_nodes (stage 12 u fileName (ignoreMinAndMaxItems options)) True normalized"
    and last: "apply_rule n fileName options rule_const_to_enum
                ''Transform const to singleton enum'' t = Some (Inr normalized)"
    by blast
  from normal_builtin_rules [OF last normal]
  have "forEach (apply_rule n fileName options) (rules u) normalized = Some (Inr normalized)" .
  with assms(1) show ?thesis
    by (auto simp: normalize_def cloneDeep_def Return_def)
qed

theorem C1_witness:
  "normalize \<lparr>justName = (\<lambda>f. f), toSafeString = (\<lambda>f. f)\<rparr> (Suc (Suc (Suc 0)))
      [(''type'', JArr [JStr ''object'']),
       (''properties'', JObj (Node
          [(''tags'', JObj (Node [(''items'', JObj (Node [(''const'', JStr ''red'')])),
                                  (''minItems'', JNum 1)]))]))]
      ''Doc'' \<lparr>ignoreMinAndMaxItems = False, normalizerRules = None\<rparr>
   = Some (Inr
      [(''type'', JStr ''object''),
       (''properties'', JObj (Node
          [(''tags'', JObj (Node
              [(''items'', JArr [JObj (Node [(''enum'', JArr [JStr ''red''])])]),
               (''minItems'', JNum 1),
               (''additionalItems'', JObj (Node [(''enum'', JArr [JStr ''red''])]))]))])),
       (''required'', JArr []),
       (''additionalProperties'', JBool True),
       (''id'', JStr ''Doc'')])
   \<and> normalize \<lparr>justName = (\<lambda>f. f), toSafeString = (\<lambda>f. f)\<rparr> (Suc (Suc (Suc 0)))
      [(''type'', JStr ''object''),
       (''properties'', JObj (Node
          [(''tags'', JObj (Node
              [(''items'', JArr [JObj (Node [(''enum'', JArr [JStr ''red''])])]),
               (''minItems'', JNum 1),
               (''additionalItems'', JObj (Node [(''enum'', JArr [JStr ''red''])]))]))])),
       (''required'', JArr []),
       (''additionalProperties'', JBool True),
       (''id'', JStr ''Doc'')]
      ''Doc'' \<lparr>ignoreMinAndMaxItems = False, normalizerRules = None\<rparr>
   = Some (Inr
      [(''type'', JStr ''object''),
       (''properties'', JObj (Node
          [(''tags'', JObj (Node
              [(''items'', JArr [JObj (Node [(''enum'', JArr [JStr ''red''])])]),
               (''minItems'', JNum 1),
               (''additionalItems'', JObj (Node [(''enum'', JArr [JStr ''red''])]))]))])),
       (''required'', JArr []),
       (''additionalProperties'', JBool True),
       (''id'', JStr ''Doc'')])"
proof -
  let ?u = "\<lparr>justName = (\<lambda>f. f), toSafeString = (\<lambda>f. f)\<rparr>"
  let ?o = "\<lparr>ignoreMinAndMaxItems = False, normalizerRules = None\<rparr> :: tree Rule NormalizerOptions"
  let ?S = "[(''type'', JArr [JStr ''object'']),
       (''properties'', JObj (Node
          [(''tags'', JObj (Node [(''items'', JObj (Node [(''const'', JStr ''red'')])),
                                  (''minItems'', JNum 1)]))]))] :: schema"
  have rules: "normalizerRules ?o = None \<or> normalizerRules ?o = Some []" by simp
  have ok: "all_nodes (\<lambda>isRoot. type_ok) True ?S"
    by (simp add: all_nodes.simps children_def children_of_key_def nodes_of_def key_kind_def
        type_ok_def)
  have run: "normalize ?u (Suc (Suc (Suc 0))) ?S ''Doc'' ?o = Some (Inr
      [(''type'', JStr ''object''),
       (''properties'', JObj (Node
          [(''tags'', JObj (Node
              [(''items'', JArr [JObj (Node [(''enum'', JArr [JStr ''red''])])]),
               (''minItems'', JNum 1),
               (''additionalItems'', JObj (Node [(''enum'', JArr [JStr ''red''])]))]))])),
       (''required'', JArr []),
       (''additionalProperties'', JBool True),
       (''id'', JStr ''Doc'')])"
    by (simp add: result_simps rule_defs)
  from C1_normalize_idempotent [OF rules ok run] run show ?thesis
    by simp
qed

section \<open>What a call leaves unchanged\<close>

subsection \<open>The copy is made of new objects\<close>

lemma keepsD:
  assumes "keeps n0 R g" and "g x st = Some (y, st')" and "clone_inv n0 st"
  shows "clone_inv n0 st'" and "take n0 (fst st') = take n0 (fst st)" and "R y"
  using assms unfolding keeps_def by blast+

lemma clone_list_keeps:
  assumes g: "keeps n0 R g"
  shows "keeps n0 (\<lambda>ys. \<forall>y\<in>set ys. R y) (clone_list g)"
  unfolding keeps_def
proof (intro allI impI)
  fix xs st ys st'
  assume "clone_list g xs st = Some (ys, st')" and "clone_inv n0 st"
  then show "clone_inv n0 st' \<and> take n0 (fst st') = take n0 (fst st) \<and> (\<forall>y\<in>set ys. R y)"
  proof (induction xs arbitrary: st ys)
    case Nil
    then show ?case by simp
  next
    case (Cons x xs)
    from Cons.prems(1) obtain y st1 zs where
      gx: "g x st = Some (y, st1)" and rest: "clone_list g xs st1 = Some (zs, st')"
      and ys: "ys = y # zs"
      by (auto split: option.splits)
    from keepsD [OF g gx Cons.prems(2)]
    have 1: "clone_inv n0 st1" "take n0 (fst st1) = take n0 (fst st)" "R y" .
    from Cons.IH [OF rest 1(1)] 1 ys show ?case by simp
  qed
qed

lemma clone_field_keeps:
  assumes g: "keeps n0 R g"
  shows "keeps n0 (\<lambda>kv. R (snd kv)) (clone_field g)"
  unfolding keeps_def
proof (intro allI impI)
  fix kv st kv' st'
  assume "clone_field g kv st = Some (kv', st')" and inv: "clone_inv n0 st"
  then obtain v where gx: "g (snd kv) st = Some (v, st')" and kv': "kv' = (fst kv, v)"
    by (auto simp: clone_field_def split: option.splits)
  from keepsD [OF g gx inv] kv'
  show "clone_inv n0 st' \<and> take n0 (fst st') = take n0 (fst st) \<and> R (snd kv')" by simp
qed

lemma closed_append_empty: "closed n0 h \<Longrightarrow> closed n0 (h @ [[]])"
  by (auto simp: closed_def nth_append refs_def)

lemma closed_update:
  assumes "closed n0 h" and "refs x \<subseteq> {a'. n0 \<le> a'}"
  shows "closed n0 (h[a := x])"
  unfolding closed_def
proof (intro allI impI)
  fix b
  assume b: "n0 \<le> b \<and> b < length (h[a := x])"
  show "refs (h[a := x] ! b) \<subseteq> {a'. n0 \<le> a'}"
  proof (cases "b = a")
    case True
    with b assms(2) show ?thesis by simp
  next
    case False
    with b assms(1) show ?thesis by (simp add: closed_def)
  qed
qed

lemma take_update_above: "n0 \<le> a \<Longrightarrow> take n0 (h[a := x]) = take n0 h"
  by simp

lemma clone_value_keeps: "keeps n0 (\<lambda>v. set_json v \<subseteq> {a'. n0 \<le> a'}) (clone_value n)"
proof (induction n)
  case 0
  show ?case by (simp add: keeps_def)
next
  case (Suc n)
  let ?R = "\<lambda>v :: addr json. set_json v \<subseteq> {a'. n0 \<le> a'}"
  show ?case
    unfolding keeps_def
  proof (intro allI impI)
    fix v st v' st'
    assume run: "clone_value (Suc n) v st = Some (v', st')" and inv: "clone_inv n0 st"
    show "clone_inv n0 st' \<and> take n0 (fst st') = take n0 (fst st) \<and> ?R v'"
    proof (cases v)
      case (JObj a)
      show ?thesis
      proof (cases "map_of (snd st) a")
        case (Some a')
        then have "(a, a') \<in> set (snd st)" by (rule map_of_SomeD)
        with inv have "n0 \<le> a'" by (auto simp: clone_inv_def)
        with run JObj Some inv show ?thesis by auto
      next
        case None
        show ?thesis
        proof (cases "length (fst st) \<le> a")
          case True
          with run JObj None inv show ?thesis by (auto simp: clone_inv_def)
        next
          case False
          let ?a' = "length (fst st)"
          let ?st1 = "(fst st @ [[]], (a, ?a') # snd st)"
          from run JObj None False obtain x st2 where
            fields: "clone_list (clone_field (clone_value n)) (fst st ! a) ?st1 = Some (x, st2)"
            and v': "v' = JObj ?a'" and st': "st' = ((fst st2)[?a' := x], snd st2)"
            by (auto split: option.splits)
          from inv have inv1: "clone_inv n0 ?st1"
            by (auto simp: clone_inv_def closed_append_empty)
          from keepsD [OF clone_list_keeps [OF clone_field_keeps [OF Suc]] fields inv1]
          have inv2: "clone_inv n0 st2" and pre: "take n0 (fst st2) = take n0 (fst ?st1)"
            and x: "\<forall>kv\<in>set x. ?R (snd kv)" .
          from inv have n0: "n0 \<le> ?a'" by (simp add: clone_inv_def)
          from x have "refs x \<subseteq> {a'. n0 \<le> a'}" by (auto simp: refs_def)
          with inv2 have "clone_inv n0 st'"
            by (simp add: st' clone_inv_def closed_update)
          moreover from pre n0 have "take n0 (fst st') = take n0 (fst st)"
            by (simp add: st')
          ultimately show ?thesis using v' n0 by simp
        qed
      qed
    next
      case (JArr xs)
      with run obtain ys where list: "clone_list (clone_value n) xs st = Some (ys, st')"
        and v': "v' = JArr ys"
        by (auto split: option.splits)
      from keepsD [OF clone_list_keeps [OF Suc] list inv] v' show ?thesis by auto
    qed (use run inv in auto)
  qed
qed

lemma store_cloneDeep_fresh:
  assumes "store_cloneDeep n h a = Some (copy, h0)" and "a < length h"
  shows "take (length h) h0 = h" and "closed (length h) h0" and "length h \<le> copy"
    and "length h \<le> length h0"
proof -
  from assms(1) obtain st where run: "clone_value n (JObj a) (h, []) = Some (JObj copy, st)"
    and h0: "h0 = fst st"
    by (auto simp: store_cloneDeep_def split: option.splits json.splits)
  have inv: "clone_inv (length h) (h, [])"
    by (simp add: clone_inv_def closed_def)
  from keepsD [OF clone_value_keeps run inv] h0
  show "take (length h) h0 = h" and "closed (length h) h0" and "length h \<le> copy"
    and "length h \<le> length h0"
    by (simp_all add: clone_inv_def)
qed


subsection \<open>The built-in rules forge no reference\<close>

lemma refs_update: "refs (AList.update k v s) \<subseteq> refs s \<union> set_json v"
  by (induction s) (auto simp: refs_def)

lemma refs_delete: "refs (AList.delete k s) \<subseteq> refs s"
  by (induction s) (auto simp: refs_def)

lemma refs_lookup: "map_of s k = Some v \<Longrightarrow> set_json v \<subseteq> refs s"
  by (auto simp: refs_def dest!: map_of_SomeD)

lemma refs_update_in:
  assumes "set_json v \<subseteq> refs s"
  shows "refs (AList.update k v s) \<subseteq> refs s"
  using refs_update [of k v s] assms by auto

lemma refs_remove_null_type:
  assumes "rule_remove_null_type s f opts r = Inr s'"
  shows "refs s' \<subseteq> refs s"
proof (cases "\<exists>ts. map_of s ''type'' = Some (JArr ts)")
  case True
  then obtain ts where ts: "map_of s ''type'' = Some (JArr ts)" by blast
  from refs_lookup [OF ts]
  have "set_json (JArr (filter (\<lambda>t. t \<noteq> JStr ''null'') ts)) \<subseteq> refs s" by auto
  from refs_update_in [OF this] assms ts show ?thesis
    by (auto simp: rule_remove_null_type_def split: option.splits json.splits if_splits)
next
  case False
  with assms have "s' = s"
    by (auto simp: rule_remove_null_type_def split: option.splits json.splits)
  then show ?thesis by simp
qed

lemma refs_destructure_unary_types:
  assumes "rule_destructure_unary_types s f opts r = Inr s'"
  shows "refs s' \<subseteq> refs s"
proof (cases "\<exists>t. map_of s ''type'' = Some (JArr [t])")
  case True
  then obtain t where t: "map_of s ''type'' = Some (JArr [t])" by blast
  from refs_lookup [OF t] have "set_json t \<subseteq> refs s" by auto
  moreover from assms t have "s' = AList.update ''type'' t s"
    by (simp add: rule_destructure_unary_types_def)
  ultimately show ?thesis by (simp add: refs_update_in)
next
  case False
  with assms have "s' = s"
    by (auto simp: rule_destructure_unary_types_def split: option.splits json.splits list.splits)
  then show ?thesis by simp
qed

lemma refs_update_leaf:
  assumes "set_json v = {}"
  shows "refs (AList.update k v s) \<subseteq> refs s"
  using refs_update [of k v s] assms by auto

lemma refs_add_empty_required:
  "rule_add_empty_required s f opts r = Inr s' \<Longrightarrow> refs s' \<subseteq> refs s"
  using refs_update_leaf [of "JArr []" "''required''" s]
  by (auto simp: rule_add_empty_required_def split: if_splits)

lemma refs_required_false:
  "rule_required_false s f opts r = Inr s' \<Longrightarrow> refs s' \<subseteq> refs s"
  using refs_update_leaf [of "JArr []" "''required''" s]
  by (auto simp: rule_required_false_def split: if_splits)

lemma refs_default_additionalProperties:
  "rule_default_additionalProperties s f opts r = Inr s' \<Longrightarrow> refs s' \<subseteq> refs s"
  using refs_update_leaf [of "JBool True" "''additionalProperties''" s]
  by (auto simp: rule_default_additionalProperties_def split: if_splits)

lemma refs_default_id:
  "rule_default_id u s f opts r = Inr s' \<Longrightarrow> refs s' \<subseteq> refs s"
  using refs_update_leaf [of "JStr (toSafeString u (justName u f))" "''id''" s]
  by (auto simp: rule_default_id_def split: if_splits)

lemma refs_escape_jsdoc:
  assumes "rule_escape_jsdoc s f opts r = Inr s'"
  shows "refs s' \<subseteq> refs s"
proof -
  from assms have "s' = s \<or> (\<exists>d. s' = AList.update ''description'' (JStr d) s)"
    by (auto simp: rule_escape_jsdoc_def escapeBlockComment_def split: option.splits json.splits)
  then show ?thesis
    by (auto dest: subsetD [OF refs_update_leaf, rotated])
qed

lemma refs_remove_max_min_items:
  "rule_remove_max_min_items s f opts r = Inr s' \<Longrightarrow> refs s' \<subseteq> refs s"
  using refs_delete [of "''minItems''" "AList.delete ''maxItems'' s"] refs_delete [of "''maxItems''" s]
  by (auto simp: rule_remove_max_min_items_def split: if_splits)

lemma refs_normalise_minItems:
  assumes "rule_normalise_minItems s f opts r = Inr s'"
  shows "refs s' \<subseteq> refs s"
proof -
  from assms have "s' = s \<or> (\<exists>n. s' = AList.update ''minItems'' (JNum n) s)"
    by (auto simp: rule_normalise_minItems_def split: if_splits option.splits json.splits)
  then show ?thesis
    by (auto dest: subsetD [OF refs_update_leaf, rotated])
qed

lemma refs_items_to_tuple:
  assumes "items_to_tuple s = Inr t"
  shows "refs t \<subseteq> refs s"
  using assms
proof (cases rule: items_to_tuple_cases)
  case same
  then show ?thesis by simp
next
  case (tuple it xs)
  from refs_lookup [OF tuple(1)] have it: "set_json it \<subseteq> refs s" .
  define s0 where "s0 = (if \<not> hasMaxItems s then AList.update ''additionalItems'' it s else s)"
  from it have s0: "refs s0 \<subseteq> refs s"
    by (simp add: s0_def refs_update_in)
  from tuple(5) it have xs: "set_json (JArr xs) \<subseteq> refs s" by auto
  from tuple(7) have "t = AList.update ''items'' (JArr xs) s0" by (simp add: s0_def)
  with refs_update [of "''items''" "JArr xs" s0] have "refs t \<subseteq> refs s0 \<union> set_json (JArr xs)"
    by simp
  with s0 xs show ?thesis by blast
qed

lemma refs_items_slice: "refs (items_slice t) \<subseteq> refs t"
proof (cases "\<exists>xs n. map_of t ''items'' = Some (JArr xs) \<and> map_of t ''maxItems'' = Some (JNum n)
                \<and> 0 \<le> n \<and> n < int (length xs)")
  case True
  then obtain xs n where *: "map_of t ''items'' = Some (JArr xs)"
    and eq: "items_slice t = AList.update ''items'' (JArr (take (nat n) xs)) t"
    by (auto simp: items_slice_def)
  from refs_lookup [OF *] have "set_json (JArr (take (nat n) xs)) \<subseteq> refs t"
    by (auto dest: in_set_takeD)
  from refs_update_in [OF this] eq show ?thesis by simp
next
  case False
  then have "items_slice t = t"
    by (auto simp: items_slice_def split: option.splits json.splits)
  then show ?thesis by simp
qed

lemma refs_normalize_items:
  assumes "rule_normalize_items s f opts r = Inr s'"
  shows "refs s' \<subseteq> refs s"
  using assms
proof (cases rule: rule_normalize_items_cases)
  case ignored
  then show ?thesis by simp
next
  case (sliced t)
  with refs_items_to_tuple [of s t] refs_items_slice [of t] show ?thesis by auto
qed

lemma refs_defs_to_definitions:
  assumes "rule_defs_to_definitions s f opts r = Inr s'"
  shows "refs s' \<subseteq> refs s"
proof (cases "truthy (map_of s ''$defs'')")
  case True
  then obtain d where d: "map_of s ''$defs'' = Some d" by (cases "map_of s ''$defs''") auto
  with True assms have eq: "s' = AList.delete ''$defs'' (AList.update ''definitions'' d s)"
    by (simp add: rule_defs_to_definitions_def)
  from refs_update_in [OF refs_lookup [OF d], of "''definitions''"]
    refs_delete [of "''$defs''" "AList.update ''definitions'' d s"] eq
  show ?thesis by auto
next
  case False
  with assms have "s' = s"
    by (auto simp: rule_defs_to_definitions_def split: option.splits)
  then show ?thesis by simp
qed

lemma refs_const_to_enum:
  assumes "rule_const_to_enum s f opts r = Inr s'"
  shows "refs s' \<subseteq> refs s"
proof (cases "truthy (map_of s ''const'')")
  case True
  then obtain c where c: "map_of s ''const'' = Some c" by (cases "map_of s ''const''") auto
  with True assms have eq: "s' = AList.delete ''const'' (AList.update ''enum'' (JArr [c]) s)"
    by (simp add: rule_const_to_enum_def)
  from refs_lookup [OF c] have "set_json (JArr [c]) \<subseteq> refs s" by simp
  from refs_update_in [OF this, of "''enum''"]
    refs_delete [of "''const''" "AList.update ''enum'' (JArr [c]) s"] eq
  show ?thesis by auto
next
  case False
  with assms have "s' = s"
    by (auto simp: rule_const_to_enum_def split: option.splits)
  then show ?thesis by simp
qed

lemma builtin_rules_forge_no_reference:
  "\<forall>kr \<in> set (rules u). forges_no_reference (snd kr)"
  by (auto simp: rules_def forges_no_reference_def
      dest: refs_remove_null_type refs_destructure_unary_types refs_add_empty_required
        refs_required_false refs_default_additionalProperties refs_default_id refs_escape_jsdoc
        refs_remove_max_min_items refs_normalise_minItems refs_normalize_items
        refs_defs_to_definitions refs_const_to_enum)


subsection \<open>A traversal stays among the objects of the copy\<close>

lemma objects_of_refs: "a \<in> set (objects_of vs) \<Longrightarrow> \<exists>v\<in>set vs. a \<in> set_json v"
proof -
  assume "a \<in> set (objects_of vs)"
  then have "JObj a \<in> set vs" by (auto simp: objects_of_def split: json.splits)
  then show ?thesis by (intro bexI [of _ "JObj a"]) simp_all
qed

lemma store_children_of_key_above:
  assumes "closed n0 h" and "set_json (snd kv) \<subseteq> {a'. n0 \<le> a'}"
    and "c \<in> set (store_children_of_key h kv)"
  shows "n0 \<le> c"
proof -
  have direct: "n0 \<le> c" if "c \<in> set (objects_of [snd kv])"
    using objects_of_refs [OF that] assms(2) by auto
  have arr: "n0 \<le> c" if "snd kv = JArr xs" "c \<in> set (objects_of xs)" for xs
    using objects_of_refs [OF that(2)] assms(2) that(1) by auto
  have keyed: "n0 \<le> c" if "snd kv = JObj d" "d < length h" "c \<in> set (objects_of (map snd (h ! d)))" for d
  proof -
    from that(1) assms(2) have "n0 \<le> d" by simp
    with assms(1) that(2) have "refs (h ! d) \<subseteq> {a'. n0 \<le> a'}" by (simp add: closed_def)
    moreover from objects_of_refs [OF that(3)] have "c \<in> refs (h ! d)" by (auto simp: refs_def)
    ultimately show ?thesis by auto
  qed
  show ?thesis
  proof (cases "key_kind (fst kv)")
    case KeyedNodes
    with assms(3) keyed show ?thesis
      by (cases "snd kv") (auto simp: store_children_of_key_def split: if_splits)
  next
    case NodeOrArray
    with assms(3) arr direct show ?thesis
      by (cases "snd kv") (auto simp: store_children_of_key_def)
  next
    case NodeArray
    with assms(3) arr show ?thesis
      by (cases "snd kv") (auto simp: store_children_of_key_def)
  next
    case SingleNode
    with assms(3) direct show ?thesis by (simp add: store_children_of_key_def)
  next
    case NotTraversed
    with assms(3) show ?thesis by (simp add: store_children_of_key_def)
  qed
qed

lemma store_children_above:
  assumes "closed n0 h" and "refs x \<subseteq> {a'. n0 \<le> a'}" and "c \<in> set (store_children h x)"
  shows "n0 \<le> c"
proof -
  from assms(3) obtain kv where kv: "kv \<in> set x" and c: "c \<in> set (store_children_of_key h kv)"
    by (auto simp: store_children_def)
  from kv assms(2) have "set_json (snd kv) \<subseteq> {a'. n0 \<le> a'}"
    by (auto simp: refs_def)
  from store_children_of_key_above [OF assms(1) this c] show ?thesis .
qed

lemma framesD:
  assumes "frames n0 step" and "step st = Some (Inr st')" and "closed n0 (fst st)"
  shows "closed n0 (fst st')" and "take n0 (fst st') = take n0 (fst st)"
  using assms unfolding frames_def by blast+

lemma foldM_frames:
  assumes "\<And>c. c \<in> set cs \<Longrightarrow> frames n0 (f c)"
  shows "frames n0 (foldM f cs)"
  using assms
proof (induction cs)
  case Nil
  show ?case by (simp add: frames_def Return_def)
next
  case (Cons c cs)
  have fc: "frames n0 (f c)" and rest: "frames n0 (foldM f cs)"
    using Cons by simp_all
  show ?case
    unfolding frames_def
  proof (intro allI impI)
    fix st st'
    assume run: "foldM f (c # cs) st = Some (Inr st')" and cl: "closed n0 (fst st)"
    then obtain st1 where 1: "f c st = Some (Inr st1)" and 2: "foldM f cs st1 = Some (Inr st')"
      by (auto simp: and_then_Inr)
    from framesD [OF fc 1 cl] framesD [OF rest 2]
    show "closed n0 (fst st') \<and> take n0 (fst st') = take n0 (fst st)"
      by simp
  qed
qed

lemma store_traverse_frames:
  assumes cb: "\<And>a isRoot h h'. n0 \<le> a \<Longrightarrow> closed n0 h \<Longrightarrow> cb a isRoot h = Some (Inr h')
                 \<Longrightarrow> closed n0 h' \<and> take n0 h' = take n0 h"
  shows "n0 \<le> a \<Longrightarrow> frames n0 (store_traverse n a cb isRoot)"
proof (induction n arbitrary: a isRoot)
  case 0
  show ?case by (simp add: frames_def)
next
  case (Suc n)
  show ?case
    unfolding frames_def
  proof (intro allI impI)
    fix st st'
    assume run: "store_traverse (Suc n) a cb isRoot st = Some (Inr st')"
      and cl: "closed n0 (fst st)"
    show "closed n0 (fst st') \<and> take n0 (fst st') = take n0 (fst st)"
    proof (cases "a \<in> set (snd st) \<or> length (fst st) \<le> a")
      case True
      with run cl show ?thesis by (simp add: Return_def)
    next
      case False
      with run obtain h1 where h1: "cb a isRoot (fst st) = Some (Inr h1)"
        and rest: "foldM (\<lambda>c. store_traverse n c cb False)
                      (if a < length h1 then store_children h1 (h1 ! a) else [])
                      (h1, a # snd st)
                   = Some (Inr st')"
        by (auto simp: and_then_Inr)
      from cb [OF Suc.prems cl h1]
      have cl1: "closed n0 h1" and same: "take n0 h1 = take n0 (fst st)" by simp_all
      have "frames n0 (foldM (\<lambda>c. store_traverse n c cb False)
                (if a < length h1 then store_children h1 (h1 ! a) else []))"
      proof (rule foldM_frames)
        fix c
        assume c: "c \<in> set (if a < length h1 then store_children h1 (h1 ! a) else [])"
        then have inside: "a < length h1" and child: "c \<in> set (store_children h1 (h1 ! a))"
          by (simp_all split: if_splits)
        from cl1 inside Suc.prems have "refs (h1 ! a) \<subseteq> {a'. n0 \<le> a'}"
          by (simp add: closed_def)
        from store_children_above [OF cl1 this child]
        show "frames n0 (store_traverse n c cb False)"
          by (rule Suc.IH)
      qed
      from framesD [OF this rest] cl1 same show ?thesis by simp
    qed
  qed
qed

lemma store_apply_rule_frames:
  assumes "leaves_callers_objects n0 rule" and "n0 \<le> copy"
    and "store_apply_rule n copy f options rule key h = Some (Inr h')" and "closed n0 h"
  shows "closed n0 h' \<and> take n0 h' = take n0 h"
proof -
  let ?cb = "\<lambda>schema isRoot. rule schema copy f (Options.truncate options) isRoot"
  from assms(3) obtain st' where run: "store_traverse n copy ?cb True (h, []) = Some (Inr st')"
    and h': "h' = fst st'"
    by (auto simp: store_apply_rule_def and_then_Inr Return_def)
  have "frames n0 (store_traverse n copy ?cb True)"
  proof (rule store_traverse_frames [OF _ assms(2)])
    fix a isRoot h1 h2
    assume "n0 \<le> a" and "closed n0 h1"
      and "rule a copy f (Options.truncate options) isRoot h1 = Some (Inr h2)"
    with assms(1) assms(2) show "closed n0 h2 \<and> take n0 h2 = take n0 h1"
      unfolding leaves_callers_objects_def by blast
  qed
  from framesD [OF this run] assms(4) h' show ?thesis by simp
qed

lemma forEach_store_apply_rule_frames:
  assumes "\<forall>kr\<in>set rs. leaves_callers_objects n0 (g (snd kr))" and "n0 \<le> copy"
  shows "forEach (\<lambda>rule. store_apply_rule n copy f options (g rule)) rs h = Some (Inr h')
         \<Longrightarrow> closed n0 h \<Longrightarrow> closed n0 h' \<and> take n0 h' = take n0 h"
  using assms(1)
proof (induction rs arbitrary: h)
  case Nil
  then show ?case by (simp add: Return_def)
next
  case (Cons kr rs)
  from Cons.prems(1) obtain h1 where
    1: "store_apply_rule n copy f options (g (snd kr)) (fst kr) h = Some (Inr h1)"
    and 2: "forEach (\<lambda>rule. store_apply_rule n copy f options (g rule)) rs h1 = Some (Inr h')"
    by (auto simp: and_then_Inr)
  from Cons.prems(3) have local: "leaves_callers_objects n0 (g (snd kr))"
    and rest: "\<forall>kr\<in>set rs. leaves_callers_objects n0 (g (snd kr))" by simp_all
  from store_apply_rule_frames [OF local assms(2) 1 Cons.prems(2)]
  have *: "closed n0 h1" "take n0 h1 = take n0 h" by simp_all
  from Cons.IH [OF 2 *(1) rest] * show ?case by simp
qed

text \<open>A built-in rule writes the node it is handed, and no reference that was not there.\<close>

lemma in_store_leaves_callers_objects:
  assumes "forges_no_reference rule"
  shows "leaves_callers_objects n0 (in_store rule)"
  unfolding leaves_callers_objects_def
proof (intro allI impI, elim conjE)
  fix schema rootSchema :: addr and fileName :: string and options :: Options
    and isRoot :: bool and h h' :: store
  assume above: "n0 \<le> schema" and cl: "closed n0 h"
    and run: "in_store rule schema rootSchema fileName options isRoot h = Some (Inr h')"
  show "closed n0 h' \<and> take n0 h' = take n0 h"
  proof (cases "length h \<le> schema")
    case True
    with run cl show ?thesis by (simp add: in_store_def Return_def)
  next
    case False
    with run obtain x where x: "rule (h ! schema) fileName options isRoot = Inr x"
      and h': "h' = h[schema := x]"
      by (auto simp: in_store_def Return_def split: sum.splits)
    from False cl above have "refs (h ! schema) \<subseteq> {a'. n0 \<le> a'}"
      by (simp add: closed_def)
    with assms x have "refs x \<subseteq> {a'. n0 \<le> a'}"
      unfolding forges_no_reference_def by blast
    with cl have "closed n0 (h[schema := x])" by (rule closed_update)
    with h' above show ?thesis by (simp add: take_update_above)
  qed
qed

lemma builtin_rules_leave_callers_objects:
  "\<forall>kr\<in>set (rules u). leaves_callers_objects n0 (in_store (snd kr))"
  using builtin_rules_forge_no_reference [of u] in_store_leaves_callers_objects by blast

section \<open>What single rules do\<close>

subsection \<open>Tuples from items and maxItems\<close>

text \<open>
  C2, as stated: for every node whose items is a single schema and whose maxItems is a
  number \<open>n \<ge> 0\<close>, with ignoreMinAndMaxItems unset, the rule makes items an array of
  \<open>n\<close> copies and leaves additionalItems alone. It fails at \<open>n = 2^32\<close>, which is no
  array length: \<^verbatim>\<open>Array(4294967296)\<close> raises RangeError.
\<close>

theorem C2_counterexample:
  "\<not> (\<forall>(s :: schema) it n fileName options isRoot.
        map_of s ''items'' = Some (JObj it) \<and> map_of s ''maxItems'' = Some (JNum n) \<and> 0 \<le> n
        \<and> \<not> ignoreMinAndMaxItems options \<longrightarrow>
        (\<exists>s'. rule_normalize_items s fileName options isRoot = Inr s'
              \<and> map_of s' ''items'' = Some (JArr (replicate (nat n) (JObj it)))
              \<and> map_of s' ''additionalItems'' = map_of s ''additionalItems''))"
proof
  assume claim: "\<forall>(s :: schema) it n fileName options isRoot.
        map_of s ''items'' = Some (JObj it) \<and> map_of s ''maxItems'' = Some (JNum n) \<and> 0 \<le> n
        \<and> \<not> ignoreMinAndMaxItems options \<longrightarrow>
        (\<exists>s'. rule_normalize_items s fileName options isRoot = Inr s'
              \<and> map_of s' ''items'' = Some (JArr (replicate (nat n) (JObj it)))
              \<and> map_of s' ''additionalItems'' = map_of s ''additionalItems'')"
  have raised: "rule_normalize_items
      [(''items'', JObj (Node [])), (''maxItems'', JNum 4294967296)] ''''
      \<lparr>ignoreMinAndMaxItems = False\<rparr> False = Inl RangeError"
    by (simp add: rule_defs)
  from claim [rule_format,
      of "[(''items'', JObj (Node [])), (''maxItems'', JNum 4294967296)]" "Node []" 4294967296
         "\<lparr>ignoreMinAndMaxItems = False\<rparr>" "''''" False]
  show False
    by (simp add: raised)
qed

text \<open>
  C2, amended: for every node whose items is a single schema and whose maxItems is a number
  \<open>n\<close> with \<open>0 \<le> n < 2^32\<close>, with ignoreMinAndMaxItems unset, the rule replaces
  items with an array of exactly \<open>n\<close> copies of that schema and leaves additionalItems as
  it was. For \<open>n = 0\<close> the array length first tried is minItems, so this is stated for a
  numeric minItems that is an array length itself: then the items array ends up empty
  even when minItems is positive.
\<close>

theorem C2_tuple_of_maxItems:
  assumes "map_of s ''items'' = Some (JObj it)"
    and "map_of s ''maxItems'' = Some (JNum n)"
    and "0 \<le> n" and "n < 2 ^ 32"
    and "n = 0 \<longrightarrow> (\<forall>m. map_of s ''minItems'' = Some (JNum m) \<longrightarrow> 0 \<le> m \<and> m < 2 ^ 32)"
    and "\<not> ignoreMinAndMaxItems options"
  shows "\<exists>s'. rule_normalize_items s fileName options isRoot = Inr s'
           \<and> map_of s' ''items'' = Some (JArr (replicate (nat n) (JObj it)))
           \<and> map_of s' ''additionalItems'' = map_of s ''additionalItems''"
proof (cases "n = 0")
  case False
  with assms
  have "items_to_tuple s = Inr (AList.update ''items'' (JArr (replicate (nat n) (JObj it))) s)"
    by (simp add: items_to_tuple_def hasMaxItems_def js_or_def)
  with assms show ?thesis
    by (simp add: rule_normalize_items_def items_slice_def update_conv')
next
  case True
  have "\<exists>xs. Array_fill
          (js_or (map_of s ''maxItems'') (js_or (map_of s ''minItems'') (Some (JNum 0))))
          (JObj it) = Inr xs"
  proof (cases "map_of s ''minItems''")
    case None
    with assms True show ?thesis by (simp add: js_or_def)
  next
    case (Some m)
    with assms True show ?thesis by (cases m) (simp_all add: js_or_def)
  qed
  then obtain xs where "Array_fill
          (js_or (map_of s ''maxItems'') (js_or (map_of s ''minItems'') (Some (JNum 0))))
          (JObj it) = Inr xs" ..
  with assms True have "items_to_tuple s = Inr (AList.update ''items'' (JArr xs) s)"
    by (simp add: items_to_tuple_def hasMaxItems_def)
  with assms True show ?thesis
    by (simp add: rule_normalize_items_def items_slice_def update_conv')
qed

theorem C2_witness:
  "(\<exists>s'. rule_normalize_items
            [(''items'', JObj (Node [(''type'', JStr ''string'')])), (''minItems'', JNum 2),
             (''maxItems'', JNum 2)] ''f'' \<lparr>ignoreMinAndMaxItems = False\<rparr> False = Inr s'
        \<and> map_of s' ''items''
            = Some (JArr [JObj (Node [(''type'', JStr ''string'')]),
                          JObj (Node [(''type'', JStr ''string'')])])
        \<and> map_of s' ''additionalItems'' = None)
   \<and> (\<exists>s'. rule_normalize_items
            [(''items'', JObj (Node [])), (''minItems'', JNum 3), (''maxItems'', JNum 0)]
            ''f'' \<lparr>ignoreMinAndMaxItems = False\<rparr> False = Inr s'
        \<and> map_of s' ''items'' = Some (JArr [])
        \<and> map_of s' ''additionalItems'' = None)"
  using
    C2_tuple_of_maxItems [of
      "[(''items'', JObj (Node [(''type'', JStr ''string'')])), (''minItems'', JNum 2),
        (''maxItems'', JNum 2)]"
      "Node [(''type'', JStr ''string'')]" 2 "\<lparr>ignoreMinAndMaxItems = False\<rparr>" "''f''" False]
    C2_tuple_of_maxItems [of
      "[(''items'', JObj (Node [])), (''minItems'', JNum 3), (''maxItems'', JNum 0)]"
      "Node []" 0 "\<lparr>ignoreMinAndMaxItems = False\<rparr>" "''f''" False]
  by (simp add: numeral_2_eq_2)

subsection \<open>Tuples from items and minItems\<close>

text \<open>
  C5, as stated: for every node whose items is a single schema, whose minItems is a
  number \<open>n > 0\<close> and which has no maxItems, with ignoreMinAndMaxItems unset, the rule
  makes items an array of \<open>n\<close> copies and sets additionalItems to the single schema. It
  fails at \<open>n = 2^32\<close>, where \<^verbatim>\<open>Array(n)\<close> raises RangeError.
\<close>

theorem C5_counterexample:
  "\<not> (\<forall>(s :: schema) it n fileName options isRoot.
        map_of s ''items'' = Some (JObj it) \<and> map_of s ''minItems'' = Some (JNum n) \<and> 0 < n
        \<and> map_of s ''maxItems'' = None \<and> \<not> ignoreMinAndMaxItems options \<longrightarrow>
        (\<exists>s'. rule_normalize_items s fileName options isRoot = Inr s'
              \<and> map_of s' ''items'' = Some (JArr (replicate (nat n) (JObj it)))
              \<and> map_of s' ''additionalItems'' = Some (JObj it)))"
proof
  assume claim: "\<forall>(s :: schema) it n fileName options isRoot.
        map_of s ''items'' = Some (JObj it) \<and> map_of s ''minItems'' = Some (JNum n) \<and> 0 < n
        \<and> map_of s ''maxItems'' = None \<and> \<not> ignoreMinAndMaxItems options \<longrightarrow>
        (\<exists>s'. rule_normalize_items s fileName options isRoot = Inr s'
              \<and> map_of s' ''items'' = Some (JArr (replicate (nat n) (JObj it)))
              \<and> map_of s' ''additionalItems'' = Some (JObj it))"
  have raised: "rule_normalize_items
      [(''items'', JObj (Node [])), (''minItems'', JNum 4294967296)] ''''
      \<lparr>ignoreMinAndMaxItems = False\<rparr> False = Inl RangeError"
    by (simp add: rule_defs)
  from claim [rule_format,
      of "[(''items'', JObj (Node [])), (''minItems'', JNum 4294967296)]" "Node []" 4294967296
         "\<lparr>ignoreMinAndMaxItems = False\<rparr>" "''''" False]
  show False
    by (simp add: raised)
qed

text \<open>
  C5, amended: for every node whose items is a single schema, whose minItems is a number
  \<open>n\<close> with \<open>0 < n < 2^32\<close> and which has no maxItems, with ignoreMinAndMaxItems
  unset, the rule replaces items with an array of \<open>n\<close> copies of that schema and sets
  additionalItems to the original single schema.
\<close>

theorem C5_tuple_of_minItems:
  assumes "map_of s ''items'' = Some (JObj it)"
    and "map_of s ''minItems'' = Some (JNum n)"
    and "0 < n" and "n < 2 ^ 32"
    and "map_of s ''maxItems'' = None"
    and "\<not> ignoreMinAndMaxItems options"
  shows "\<exists>s'. rule_normalize_items s fileName options isRoot = Inr s'
           \<and> map_of s' ''items'' = Some (JArr (replicate (nat n) (JObj it)))
           \<and> map_of s' ''additionalItems'' = Some (JObj it)"
  using assms
  by (simp add: rule_normalize_items_def items_to_tuple_def items_slice_def hasMaxItems_def
      hasMinItems_def js_or_def update_conv')

theorem C5_witness:
  "\<exists>s'. rule_normalize_items
           [(''items'', JObj (Node [(''type'', JStr ''string'')])), (''minItems'', JNum 2)]
           ''f'' \<lparr>ignoreMinAndMaxItems = False\<rparr> False = Inr s'
       \<and> map_of s' ''items''
           = Some (JArr [JObj (Node [(''type'', JStr ''string'')]),
                         JObj (Node [(''type'', JStr ''string'')])])
       \<and> map_of s' ''additionalItems'' = Some (JObj (Node [(''type'', JStr ''string'')]))"
  using
    C5_tuple_of_minItems [of
      "[(''items'', JObj (Node [(''type'', JStr ''string'')])), (''minItems'', JNum 2)]"
      "Node [(''type'', JStr ''string'')]" 2 "\<lparr>ignoreMinAndMaxItems = False\<rparr>" "''f''" False]
  by (simp add: numeral_2_eq_2)

subsection \<open>const and enum\<close>

text \<open>
  The rule acts on a truthy const: enum becomes the one-element array holding it and the
  const key goes.
\<close>

lemma const_to_enum_truthy:
  assumes "map_of s ''const'' = Some c" and "truthy (Some c)"
  shows "\<exists>s'. rule_const_to_enum s fileName options isRoot = Inr s'
           \<and> map_of s' ''enum'' = Some (JArr [c]) \<and> map_of s' ''const'' = None"
  using assms by (simp add: rule_const_to_enum_def update_conv' delete_conv')

text \<open>
  C3: every node with a const key, falsy values included, gets enum = [const] and loses
  const. The code tests \<^verbatim>\<open>if (schema.const)\<close>, the value's truthiness and not the
  key's presence: the schema \<^verbatim>\<open>{"const": 0}\<close> comes out of normalize with its const
  and without an enum (only the root's id is added).
\<close>

theorem C3_const_zero_is_kept:
  "normalize u (Suc n) [(''const'', JNum 0)] f \<lparr>ignoreMinAndMaxItems = b, normalizerRules = None\<rparr>
     = Return [(''const'', JNum 0), (''id'', JStr (toSafeString u (justName u f)))]"
  by (simp add: result_simps rule_defs)

subsection \<open>$defs and definitions\<close>

text \<open>
  C4, as stated: a node with $defs loses $defs, and definitions holds the $defs entries
  together with the earlier definitions entries whose keys do not collide. It fails on
  \<^verbatim>\<open>{"definitions": {"b": {}}, "$defs": {"a": {}}}\<close>: the rule assigns $defs to
  definitions, and the entry \<open>b\<close> is gone.
\<close>

theorem C4_counterexample:
  "\<not> (\<forall>(s :: schema) defs old k v fileName options isRoot.
        map_of s ''$defs'' = Some (JObj (Node defs))
        \<and> map_of s ''definitions'' = Some (JObj (Node old))
        \<and> map_of old k = Some v \<and> map_of defs k = None \<longrightarrow>
        (\<exists>s' merged. rule_defs_to_definitions s fileName options isRoot = Inr s'
              \<and> map_of s' ''$defs'' = None
              \<and> map_of s' ''definitions'' = Some (JObj (Node merged))
              \<and> map_of merged k = Some v))"
proof
  assume claim: "\<forall>(s :: schema) defs old k v fileName options isRoot.
        map_of s ''$defs'' = Some (JObj (Node defs))
        \<and> map_of s ''definitions'' = Some (JObj (Node old))
        \<and> map_of old k = Some v \<and> map_of defs k = None \<longrightarrow>
        (\<exists>s' merged. rule_defs_to_definitions s fileName options isRoot = Inr s'
              \<and> map_of s' ''$defs'' = None
              \<and> map_of s' ''definitions'' = Some (JObj (Node merged))
              \<and> map_of merged k = Some v)"
  have overwritten: "rule_defs_to_definitions
      [(''definitions'', JObj (Node [(''b'', JObj (Node []))])),
       (''$defs'', JObj (Node [(''a'', JObj (Node []))]))] ''''
      \<lparr>ignoreMinAndMaxItems = False\<rparr> False
      = Inr [(''definitions'', JObj (Node [(''a'', JObj (Node []))]))]"
    by (simp add: rule_defs)
  from claim [rule_format,
      of "[(''definitions'', JObj (Node [(''b'', JObj (Node []))])),
           (''$defs'', JObj (Node [(''a'', JObj (Node []))]))]"
         "[(''a'', JObj (Node []))]" "[(''b'', JObj (Node []))]" "''b''" "JObj (Node [])"
         "''''" "\<lparr>ignoreMinAndMaxItems = False\<rparr>" False]
  show False
    by (simp add: overwritten)
qed

text \<open>
  C4, amended: for every node whose $defs value is truthy (every object is), the rule
  removes $defs and sets definitions to the $defs value itself, so that earlier
  definitions entries are replaced and not merged. A node whose $defs is absent or falsy
  is left as it is.
\<close>

theorem C4_defs_replace_definitions:
  "(map_of s ''$defs'' = Some d \<and> truthy (Some d) \<longrightarrow>
      (\<exists>s'. rule_defs_to_definitions s fileName options isRoot = Inr s'
            \<and> map_of s' ''$defs'' = None \<and> map_of s' ''definitions'' = Some d))
   \<and> (\<not> truthy (map_of s ''$defs'') \<longrightarrow>
        rule_defs_to_definitions s fileName options isRoot = Inr s)"
  by (auto simp add: rule_defs_to_definitions_def update_conv' delete_conv' split: option.splits)

theorem C4_witness:
  "(\<exists>s'. rule_defs_to_definitions
            [(''definitions'', JObj (Node [(''b'', JObj (Node []))])),
             (''$defs'', JObj (Node [(''a'', JObj (Node []))]))] ''f''
            \<lparr>ignoreMinAndMaxItems = False\<rparr> False = Inr s'
        \<and> map_of s' ''$defs'' = None
        \<and> map_of s' ''definitions'' = Some (JObj (Node [(''a'', JObj (Node []))])))
   \<and> rule_defs_to_definitions [(''title'', JStr ''t'') :: string \<times> tree json] ''f''
        \<lparr>ignoreMinAndMaxItems = False\<rparr> False = Inr [(''title'', JStr ''t'')]"
  using
    C4_defs_replace_definitions [of
      "[(''definitions'', JObj (Node [(''b'', JObj (Node []))])),
        (''$defs'', JObj (Node [(''a'', JObj (Node []))]))]"
      "JObj (Node [(''a'', JObj (Node []))])" "''f''" "\<lparr>ignoreMinAndMaxItems = False\<rparr>" False]
    C4_defs_replace_definitions [of "[(''title'', JStr ''t'') :: string \<times> tree json]"
      JNull "''f''" "\<lparr>ignoreMinAndMaxItems = False\<rparr>" False]
  by simp

subsection \<open>enum with null, type with null\<close>



subsection \<open>The top level id\<close>

text \<open>
  C10: the rule \<^verbatim>\<open>Default top level id\<close> assigns the identifier derived from the file
  name whenever the root's id is falsy (absent, or a falsy value such as the empty
  string), leaves a root with a truthy id alone, and never changes a node that is not
  the root.
\<close>

theorem C10_default_id:
  "(\<not> truthy (map_of s ''id'') \<longrightarrow>
      (\<exists>s'. rule_default_id u s fileName options True = Inr s'
            \<and> map_of s' ''id'' = Some (JStr (toSafeString u (justName u fileName)))))
   \<and> (truthy (map_of s ''id'') \<longrightarrow> rule_default_id u s fileName options True = Inr s)
   \<and> rule_default_id u s fileName options False = Inr s"
  by (simp add: rule_default_id_def update_conv')

theorem C10_witness:
  "rule_default_id \<lparr>justName = (\<lambda>f. f), toSafeString = (\<lambda>f. f)\<rparr>
      [(''id'', JStr '''') :: string \<times> tree json] ''Person'' \<lparr>ignoreMinAndMaxItems = False\<rparr> True
     = Inr [(''id'', JStr ''Person'')]
   \<and> rule_default_id \<lparr>justName = (\<lambda>f. f), toSafeString = (\<lambda>f. f)\<rparr>
      [(''id'', JStr ''Given'') :: string \<times> tree json] ''Person''
      \<lparr>ignoreMinAndMaxItems = False\<rparr> True
     = Inr [(''id'', JStr ''Given'')]
   \<and> rule_default_id \<lparr>justName = (\<lambda>f. f), toSafeString = (\<lambda>f. f)\<rparr>
      [(''id'', JStr '''') :: string \<times> tree json] ''Person'' \<lparr>ignoreMinAndMaxItems = False\<rparr> False
     = Inr [(''id'', JStr '''')]"
  using
    C10_default_id [of "[(''id'', JStr '''') :: string \<times> tree json]"
      "\<lparr>justName = (\<lambda>f. f), toSafeString = (\<lambda>f. f)\<rparr>" "''Person''"
      "\<lparr>ignoreMinAndMaxItems = False\<rparr>"]
    C10_default_id [of "[(''id'', JStr ''Given'') :: string \<times> tree json]"
      "\<lparr>justName = (\<lambda>f. f), toSafeString = (\<lambda>f. f)\<rparr>" "''Person''"
      "\<lparr>ignoreMinAndMaxItems = False\<rparr>"]
  by (simp add: rule_default_id_def)

section \<open>What normalize does with errors\<close>

subsection \<open>An array length that is none\<close>

text \<open>
  C8: normalize never raises on a well-formed schema. The schema
  \<^verbatim>\<open>{"items": {}, "maxItems": 4294967296}\<close> is well formed, and the rule
  \<^verbatim>\<open>Normalize schema.items\<close> calls \<^verbatim>\<open>Array(4294967296)\<close> on it, which raises
  RangeError: the guard of the rule tests that maxItems is a number and not negative,
  and not that it is an array length.
\<close>

theorem C8_normalize_raises_RangeError:
  "normalize u (Suc (Suc n)) [(''items'', JObj (Node [])), (''maxItems'', JNum 4294967296)] f
      \<lparr>ignoreMinAndMaxItems = False, normalizerRules = None\<rparr>
     = Some (Inl RangeError)"
  by (simp add: result_simps rule_defs)

section \<open>The caller's schema\<close>

text \<open>
  C7, as stated, for every options: it fails when the options bring a rule of the
  caller's that reaches the caller's schema. The caller's schema is
  \<^verbatim>\<open>{"id": "a"}\<close>, the object at address 0. The first rule holds the object and
  writes its title, \<^verbatim>\<open>() => { original.title = "seen" }\<close>. The second stores it
  in the copy, \<^verbatim>\<open>schema.not = original\<close> at the root, and writes the title of every
  other node: the traversal goes on from the copy into the caller's object. Either way
  the call leaves the caller's object with a title.
\<close>

theorem C7_counterexample:
  "store_normalize \<lparr>justName = (\<lambda>f. f), toSafeString = (\<lambda>f. f)\<rparr> (Suc (Suc 0))
      [[(''id'', JStr ''a'')]] 0 ''f''
      \<lparr>ignoreMinAndMaxItems = False,
       normalizerRules = Some [(''write'', \<lambda>schema rootSchema fileName options isRoot h.
          Return (h[0 := AList.update ''title'' (JStr ''seen'') (h ! 0)]))]\<rparr>
   = Some (Inr (1,
      [[(''id'', JStr ''a''), (''title'', JStr ''seen'')],
       [(''id'', JStr ''a'')]]))
   \<and> [[(''id'', JStr ''a''), (''title'', JStr ''seen'')],
       [(''id'', JStr ''a'')]] ! 0
     \<noteq> [[(''id'', JStr ''a'') :: string \<times> addr json]] ! 0
   \<and> store_normalize \<lparr>justName = (\<lambda>f. f), toSafeString = (\<lambda>f. f)\<rparr> (Suc (Suc 0))
      [[(''id'', JStr ''a'')]] 0 ''f''
      \<lparr>ignoreMinAndMaxItems = False,
       normalizerRules = Some [(''alias'', \<lambda>schema rootSchema fileName options isRoot h.
          Return (h[schema :=
            (if isRoot then AList.update ''not'' (JObj 0) (h ! schema)
             else AList.update ''title'' (JStr ''seen'') (h ! schema))]))]\<rparr>
   = Some (Inr (1,
      [[(''id'', JStr ''a''), (''title'', JStr ''seen'')],
       [(''id'', JStr ''a''), (''not'', JObj 0)]]))
   \<and> [[(''id'', JStr ''a''), (''title'', JStr ''seen'')],
       [(''id'', JStr ''a''), (''not'', JObj 0)]] ! 0
     \<noteq> [[(''id'', JStr ''a'') :: string \<times> addr json]] ! 0"
  by (simp add: store_simps result_simps rule_defs)

text \<open>
  C7, amended: for every schema, file name and options whose rules of the caller's leave
  the caller's objects alone (they change no object that was there before the call, and
  store no reference to one in the copy), when normalize returns, every object that was
  in the store before the call, the caller's schema and all it reaches among them, is
  what it was; and the object returned is a new one, not the caller's: the built-in
  rules work on a deep copy taken on entry, and the copy is returned.
\<close>

theorem C7_input_unchanged:
  assumes "store_normalize u n h schema fileName options = Some (Inr (normalized, h'))"
    and "schema < length h"
    and "\<forall>userRules. normalizerRules options = Some userRules
           \<longrightarrow> (\<forall>kr\<in>set userRules. leaves_callers_objects (length h) (snd kr))"
  shows "take (length h) h' = h \<and> h' ! schema = h ! schema
       \<and> length h \<le> normalized \<and> normalized \<noteq> schema"
proof -
  from assms(1) obtain h0 h1 where
    clone: "store_cloneDeep n h schema = Some (normalized, h0)"
    and builtin: "forEach (\<lambda>rule. store_apply_rule n normalized fileName options (in_store rule))
                    (rules u) h0 = Some (Inr h1)"
    and user: "(case normalizerRules options of
                  None \<Rightarrow> Return h1
                | Some userRules \<Rightarrow>
                    forEach (store_apply_rule n normalized fileName options) userRules h1)
               = Some (Inr h')"
    by (auto simp: store_normalize_def and_then_Inr Return_def split: option.splits)
  from store_cloneDeep_fresh [OF clone assms(2)]
  have 0: "take (length h) h0 = h" "closed (length h) h0" "length h \<le> normalized" by simp_all
  from forEach_store_apply_rule_frames
    [where g = in_store, OF builtin_rules_leave_callers_objects 0(3) builtin 0(2)]
  have 1: "closed (length h) h1" "take (length h) h1 = take (length h) h0" by simp_all
  have 2: "take (length h) h' = take (length h) h1"
  proof (cases "normalizerRules options")
    case None
    with user show ?thesis by (simp add: Return_def)
  next
    case (Some userRules)
    with assms(3) have "\<forall>kr\<in>set userRules. leaves_callers_objects (length h) (snd kr)" by simp
    moreover from user Some
    have "forEach (store_apply_rule n normalized fileName options) userRules h1 = Some (Inr h')"
      by simp
    ultimately show ?thesis
      using forEach_store_apply_rule_frames
          [where g = "\<lambda>rule. rule" and rs = userRules and ?n0.0 = "length h" and copy = normalized
             and n = n and f = fileName and options = options and h = h1 and h' = h']
        0(3) 1(1) by blast
  qed
  from 0 1 2 have same: "take (length h) h' = h" by simp
  from assms(2) have "h' ! schema = take (length h) h' ! schema" by simp
  with same have "h' ! schema = h ! schema" by simp
  with same 0(3) assms(2) show ?thesis by auto
qed

theorem C7_witness:
  "store_normalize \<lparr>justName = (\<lambda>f. f), toSafeString = (\<lambda>f. f)\<rparr> (Suc (Suc (Suc 0)))
      [[(''id'', JStr ''a''), (''not'', JObj 1)], [(''const'', JNum 1)]] 0 ''f''
      \<lparr>ignoreMinAndMaxItems = False,
       normalizerRules = Some [(''seen'', \<lambda>schema rootSchema fileName options isRoot h.
          Return (h[rootSchema := AList.update ''title'' (JStr ''seen'') (h ! rootSchema)]))]\<rparr>
   = Some (Inr (2,
      [[(''id'', JStr ''a''), (''not'', JObj 1)],
       [(''const'', JNum 1)],
       [(''id'', JStr ''a''), (''not'', JObj 3), (''title'', JStr ''seen'')],
       [(''enum'', JArr [JNum 1])]]))
   \<and> (0 :: nat) < length [[(''id'', JStr ''a''), (''not'', JObj (1 :: addr))], [(''const'', JNum 1)]]
   \<and> leaves_callers_objects
        (length [[(''id'', JStr ''a''), (''not'', JObj (1 :: addr))], [(''const'', JNum 1)]])
        (\<lambda>schema rootSchema fileName options isRoot h.
          Return (h[rootSchema := AList.update ''title'' (JStr ''seen'') (h ! rootSchema)]))
   \<and> take 2
      [[(''id'', JStr ''a''), (''not'', JObj (1 :: addr))],
       [(''const'', JNum 1)],
       [(''id'', JStr ''a''), (''not'', JObj 3), (''title'', JStr ''seen'')],
       [(''enum'', JArr [JNum 1])]]
     = [[(''id'', JStr ''a''), (''not'', JObj 1)], [(''const'', JNum 1)]]"
proof -
  let ?u = "\<lparr>justName = (\<lambda>f. f), toSafeString = (\<lambda>f. f)\<rparr>"
  let ?seen = "(\<lambda>schema rootSchema fileName options isRoot h.
      Return (h[rootSchema := AList.update ''title'' (JStr ''seen'') (h ! rootSchema)]))
      :: store_Rule"
  let ?o = "\<lparr>ignoreMinAndMaxItems = False, normalizerRules = Some [(''seen'', ?seen)]\<rparr>"
  let ?h = "[[(''id'', JStr ''a''), (''not'', JObj 1)], [(''const'', JNum 1)]] :: store"
  let ?h' = "[[(''id'', JStr ''a''), (''not'', JObj 1)],
       [(''const'', JNum 1)],
       [(''id'', JStr ''a''), (''not'', JObj 3), (''title'', JStr ''seen'')],
       [(''enum'', JArr [JNum 1])]] :: store"
  have run: "store_normalize ?u (Suc (Suc (Suc 0))) ?h 0 ''f'' ?o = Some (Inr (2, ?h'))"
    by (simp add: store_simps result_simps rule_defs)
  have inside: "0 < length ?h" by simp
  have leaves: "leaves_callers_objects n0 ?seen" for n0
    unfolding leaves_callers_objects_def
  proof (intro allI impI, elim conjE)
    fix schema rootSchema :: addr and fileName :: string and options :: Options
      and isRoot :: bool and h h' :: store
    assume above: "n0 \<le> rootSchema" and cl: "closed n0 h"
      and "?seen schema rootSchema fileName options isRoot h = Some (Inr h')"
    then have h': "h' = h[rootSchema := AList.update ''title'' (JStr ''seen'') (h ! rootSchema)]"
      by (simp add: Return_def)
    show "closed n0 h' \<and> take n0 h' = take n0 h"
    proof (cases "rootSchema < length h")
      case True
      with cl above have "refs (h ! rootSchema) \<subseteq> {a'. n0 \<le> a'}" by (simp add: closed_def)
      with refs_update_leaf [of "JStr ''seen''" "''title''" "h ! rootSchema"]
      have "refs (AList.update ''title'' (JStr ''seen'') (h ! rootSchema)) \<subseteq> {a'. n0 \<le> a'}"
        by auto
      with cl have "closed n0 (h[rootSchema := AList.update ''title'' (JStr ''seen'') (h ! rootSchema)])"
        by (rule closed_update)
      with h' above show ?thesis by (simp add: take_update_above)
    next
      case False
      then have "h[rootSchema := AList.update ''title'' (JStr ''seen'') (h ! rootSchema)] = h"
        by (simp add: list_update_beyond)
      with h' cl show ?thesis by simp
    qed
  qed
  then have "\<forall>userRules. normalizerRules ?o = Some userRules
           \<longrightarrow> (\<forall>kr\<in>set userRules. leaves_callers_objects (length ?h) (snd kr))"
    by simp
  from C7_input_unchanged [OF run inside this] run leaves [of "length ?h"] show ?thesis
    by simp
qed

section \<open>A caller's rule that has a built-in rule's name\<close>








end
